theory Spec2Isabelle
  imports Main
begin

section \<open>The task tracker of todo-go/main.go\<close>

text \<open>
  The command-line task tracker keeps its tasks in one CSV file. Every command loads the
  whole file, changes the list in memory and writes the whole list back. The model below
  follows main.go function by function. Go strings are byte strings (\<open>string\<close>, a list of
  8-bit characters); Go's \<open>int\<close> is the 64-bit two's complement integer, modelled as
  \<open>int\<close> with the wrap-around written out where the code adds.

  The library functions main.go calls (strconv, time, encoding/csv, os) are modelled from
  their documented behaviour in the sections that precede the functions of main.go.
\<close>

subsection \<open>Bytes\<close>

abbreviation NL :: char where "NL \<equiv> CHR 0x0A"
abbreviation CR :: char where "CR \<equiv> CHR 0x0D"
abbreviation DQ :: char where "DQ \<equiv> CHR 0x22"
abbreviation COMMA :: char where "COMMA \<equiv> CHR '',''"

subsection \<open>strconv: Itoa, Atoi, FormatBool, ParseBool\<close>

definition digit_char :: "nat \<Rightarrow> char" where
  "digit_char d = char_of (48 + d)"

definition is_digit :: "char \<Rightarrow> bool" where
  "is_digit c = (48 \<le> (of_char c :: nat) \<and> (of_char c :: nat) \<le> 57)"

definition digit_val :: "char \<Rightarrow> nat" where
  "digit_val c = of_char c - 48"

text \<open>The decimal digits of a natural number, most significant first, no leading zero.\<close>

function nat_digits :: "nat \<Rightarrow> string" where
  "nat_digits n = (if n < 10 then [digit_char n] else nat_digits (n div 10) @ [digit_char (n mod 10)])"
  by pat_completeness auto
termination
  by (relation "measure id") auto

text \<open>The value of a digit string, read left to right: \<open>n = n * 10 + digit\<close>.\<close>

fun digits_val :: "nat \<Rightarrow> string \<Rightarrow> nat" where
  "digits_val acc [] = acc"
| "digits_val acc (c # cs) = digits_val (acc * 10 + digit_val c) cs"

definition Itoa :: "int \<Rightarrow> string" where
  "Itoa i = (if i < 0 then CHR ''-'' # nat_digits (nat (- i)) else nat_digits (nat i))"

datatype num_error = ErrSyntax | ErrRange

definition maxInt :: int where "maxInt = 2 ^ 63 - 1"
definition minInt :: int where "minInt = - (2 ^ 63)"

text \<open>
  \<open>strconv.Atoi\<close>: an optional sign, then decimal digits only. A syntax error returns 0; a
  value outside the 64-bit range returns the nearest bound together with the range error.
\<close>

definition Atoi :: "string \<Rightarrow> int \<times> num_error option" where
  "Atoi s =
     (if s = [] then (0, Some ErrSyntax)
      else
        let neg = (hd s = CHR ''-'');
            ds = (if hd s = CHR ''+'' \<or> hd s = CHR ''-'' then tl s else s)
        in if ds = [] \<or> \<not> list_all is_digit ds then (0, Some ErrSyntax)
           else
             let un = int (digits_val 0 ds)
             in if \<not> neg \<and> un \<ge> 2 ^ 63 then (maxInt, Some ErrRange)
                else if neg \<and> un > 2 ^ 63 then (minInt, Some ErrRange)
                else (if neg then - un else un, None))"

definition FormatBool :: "bool \<Rightarrow> string" where
  "FormatBool b = (if b then ''true'' else ''false'')"

definition ParseBool :: "string \<Rightarrow> bool \<times> num_error option" where
  "ParseBool s =
     (if s \<in> set [''1'', ''t'', ''T'', ''TRUE'', ''true'', ''True''] then (True, None)
      else if s \<in> set [''0'', ''f'', ''F'', ''FALSE'', ''false'', ''False''] then (False, None)
      else (False, Some ErrSyntax))"

subsection \<open>time: the Time value, Format and Parse with the RFC3339 layout\<close>

text \<open>
  A \<open>time.Time\<close> is an instant with nanosecond resolution shown in a location. The model
  keeps what the accessors \<open>Year\<close>, \<open>Month\<close>, ..., \<open>Nanosecond\<close> and \<open>Zone\<close> return: the
  civil date and clock time in the value's own zone, and the zone's offset in seconds east
  of UTC. Two values are equal in the model when they show the same civil time at the
  same offset.
\<close>

record time =
  Year :: int
  Month :: nat
  Day :: nat
  Hour :: nat
  Minute :: nat
  Second :: nat
  Nanosecond :: nat
  zoneOffset :: int

text \<open>The zero \<open>Time\<close>: January 1, year 1, 00:00:00 UTC.\<close>

definition zero_time :: time where
  "zero_time = \<lparr>Year = 1, Month = 1, Day = 1, Hour = 0, Minute = 0, Second = 0,
                 Nanosecond = 0, zoneOffset = 0\<rparr>"

definition isLeap :: "int \<Rightarrow> bool" where
  "isLeap y = (y mod 4 = 0 \<and> (y mod 100 \<noteq> 0 \<or> y mod 400 = 0))"

definition daysIn :: "nat \<Rightarrow> int \<Rightarrow> nat" where
  "daysIn m y =
     (if m = 2 then (if isLeap y then 29 else 28)
      else if m = 4 \<or> m = 6 \<or> m = 9 \<or> m = 11 then 30 else 31)"

text \<open>\<open>appendInt\<close>: the decimal text of \<open>x\<close>, zero-padded to \<open>width\<close>, with a minus sign first.\<close>

definition appendInt :: "int \<Rightarrow> nat \<Rightarrow> string" where
  "appendInt x width =
     (let ds = nat_digits (nat \<bar>x\<bar>)
      in (if x < 0 then ''-'' else '''') @ replicate (width - length ds) (CHR ''0'') @ ds)"

text \<open>
  The zone of the RFC3339 layout: \<open>Z\<close> at offset 0, else sign, hours and minutes. Go
  divides the offset by 60 truncating towards zero; seconds of the offset are not printed.
\<close>

definition format_zone :: "int \<Rightarrow> string" where
  "format_zone off =
     (if off = 0 then ''Z''
      else
        let zone = (if off < 0 then - ((- off) div 60) else off div 60);
            az = \<bar>zone\<bar>
        in (if zone < 0 then ''-'' else ''+'') @ appendInt (az div 60) 2 @ '':'' @ appendInt (az mod 60) 2)"

text \<open>\<open>t.Format(time.RFC3339)\<close>, layout \<open>2006-01-02T15:04:05Z07:00\<close>: no fractional seconds.\<close>

definition time_Format :: "time \<Rightarrow> string" where
  "time_Format t =
     appendInt (Year t) 4 @ ''-'' @ appendInt (int (Month t)) 2 @ ''-'' @ appendInt (int (Day t)) 2
     @ ''T'' @ appendInt (int (Hour t)) 2 @ '':'' @ appendInt (int (Minute t)) 2 @ '':''
     @ appendInt (int (Second t)) 2 @ format_zone (zoneOffset t)"

text \<open>
  \<open>parseUint\<close> of the RFC3339 parser: all bytes are digits and the value lies in
  \<open>[lo, hi]\<close>.
\<close>

definition parseUint :: "string \<Rightarrow> nat \<Rightarrow> nat \<Rightarrow> nat option" where
  "parseUint s lo hi =
     (if list_all is_digit s \<and> lo \<le> digits_val 0 s \<and> digits_val 0 s \<le> hi
      then Some (digits_val 0 s) else None)"

text \<open>
  The fractional second \<open>.ddd...\<close> after the seconds: at most nine digits count, scaled to
  nanoseconds. Returns the nanoseconds and the rest of the text.
\<close>

definition parse_fraction :: "string \<Rightarrow> nat \<times> string" where
  "parse_fraction s =
     (if length s \<ge> 2 \<and> hd s = CHR ''.'' \<and> is_digit (s ! 1)
      then
        let ds = takeWhile is_digit (tl s); ds9 = take 9 ds
        in (digits_val 0 ds9 * 10 ^ (9 - length ds9), drop (length ds) (tl s))
      else (0, s))"

text \<open>The zone: \<open>Z\<close>, or a sign, two digits of hours up to 23, a colon, two digits of minutes.\<close>

definition parse_zone :: "string \<Rightarrow> int option" where
  "parse_zone s =
     (if s = ''Z'' then Some 0
      else if length s \<noteq> 6 then None
      else
        (case (parseUint (take 2 (drop 1 s)) 0 23, parseUint (take 2 (drop 4 s)) 0 59) of
           (Some hr, Some mm) \<Rightarrow>
             if (s ! 0 = CHR ''-'' \<or> s ! 0 = CHR ''+'') \<and> s ! 3 = CHR '':''
             then Some ((if s ! 0 = CHR ''-'' then - 1 else 1) * (int (hr * 60 + mm) * 60))
             else None
         | _ \<Rightarrow> None))"

text \<open>
  \<open>time.Parse(time.RFC3339, s)\<close>, as the RFC3339 parser of the time package reads it.
  \<open>None\<close> is the parse error, for which \<open>Parse\<close> returns the zero \<open>Time\<close>. \<open>Parse\<close> tries
  this parser first and the general layout parser after it; a text that only the general
  parser accepts (an hour of one digit, a comma before the fraction of the second) is
  taken as a parse error here. Every text that \<open>Format\<close> prints for a year of four digits
  is in the grammar below.
\<close>

definition time_Parse :: "string \<Rightarrow> time option" where
  "time_Parse s =
     (if length s < 19 then None
      else
        (case parseUint (take 4 s) 0 9999 of None \<Rightarrow> None | Some y \<Rightarrow>
        (case parseUint (take 2 (drop 5 s)) 1 12 of None \<Rightarrow> None | Some mo \<Rightarrow>
        (case parseUint (take 2 (drop 8 s)) 1 (daysIn mo (int y)) of None \<Rightarrow> None | Some d \<Rightarrow>
        (case parseUint (take 2 (drop 11 s)) 0 23 of None \<Rightarrow> None | Some h \<Rightarrow>
        (case parseUint (take 2 (drop 14 s)) 0 59 of None \<Rightarrow> None | Some mi \<Rightarrow>
        (case parseUint (take 2 (drop 17 s)) 0 59 of None \<Rightarrow> None | Some sec \<Rightarrow>
          if \<not> (s ! 4 = CHR ''-'' \<and> s ! 7 = CHR ''-'' \<and> s ! 10 = CHR ''T''
                 \<and> s ! 13 = CHR '':'' \<and> s ! 16 = CHR '':'')
          then None
          else
            let (ns, z) = parse_fraction (drop 19 s)
            in (case parse_zone z of None \<Rightarrow> None
                | Some off \<Rightarrow>
                    Some \<lparr>Year = int y, Month = mo, Day = d, Hour = h, Minute = mi,
                          Second = sec, Nanosecond = ns, zoneOffset = off\<rparr>))))))))"

subsection \<open>The Task record and getNextID\<close>

record Task =
  ID :: int
  Description :: string
  CreatedAt :: time
  IsCompleted :: bool

text \<open>Go's \<open>int\<close> addition wraps around at 64 bits.\<close>

definition wrap64 :: "int \<Rightarrow> int" where
  "wrap64 x = (x + 2 ^ 63) mod 2 ^ 64 - 2 ^ 63"

text \<open>The loop of \<open>getNextID\<close>: \<open>maxID\<close> starts at 0 and takes every larger ID.\<close>

fun maxID_loop :: "int \<Rightarrow> Task list \<Rightarrow> int" where
  "maxID_loop maxID [] = maxID"
| "maxID_loop maxID (task # tasks) =
     (if ID task > maxID then maxID_loop (ID task) tasks else maxID_loop maxID tasks)"

definition getNextID :: "Task list \<Rightarrow> int" where
  "getNextID tasks = wrap64 (maxID_loop 0 tasks + 1)"

subsection \<open>encoding/csv: the Writer\<close>

text \<open>
  \<open>unicode.IsSpace\<close> of the first rune of a field, read off the UTF-8 bytes: the ASCII
  white space, U+0085, U+00A0, U+1680, U+2000 to U+200A, U+2028, U+2029, U+202F, U+205F
  and U+3000.
\<close>

definition first_rune_is_space :: "string \<Rightarrow> bool" where
  "first_rune_is_space s =
     (case s of
        [] \<Rightarrow> False
      | c # cs \<Rightarrow>
          c \<in> set [CHR 0x09, CHR 0x0A, CHR 0x0B, CHR 0x0C, CHR 0x0D, CHR 0x20]
          \<or> (c = CHR 0xC2 \<and> (take 1 cs = [CHR 0x85] \<or> take 1 cs = [CHR 0xA0]))
          \<or> (c = CHR 0xE1 \<and> take 2 cs = [CHR 0x9A, CHR 0x80])
          \<or> (c = CHR 0xE2 \<and> length cs \<ge> 2 \<and> cs ! 0 = CHR 0x80
               \<and> ((128 \<le> (of_char (cs ! 1) :: nat) \<and> (of_char (cs ! 1) :: nat) \<le> 138)
                    \<or> cs ! 1 \<in> set [CHR 0xA8, CHR 0xA9, CHR 0xAF]))
          \<or> (c = CHR 0xE2 \<and> take 2 cs = [CHR 0x81, CHR 0x9F])
          \<or> (c = CHR 0xE3 \<and> take 2 cs = [CHR 0x80, CHR 0x80]))"

text \<open>
  \<open>fieldNeedsQuotes\<close>: the empty field is never quoted; the field \<open>\.\<close> always is; else a
  field is quoted when it holds the delimiter, a quote, a carriage return or a line feed,
  or begins with a space.
\<close>

definition fieldNeedsQuotes :: "string \<Rightarrow> bool" where
  "fieldNeedsQuotes field =
     (if field = [] then False
      else if field = [CHR 0x5C, CHR ''.''] then True
      else if list_ex (\<lambda>c. c = NL \<or> c = CR \<or> c = DQ \<or> c = COMMA) field then True
      else first_rune_is_space field)"

text \<open>
  Inside the quotes a quote is doubled; carriage returns and line feeds are written as they
  are (\<open>UseCRLF\<close> is false).
\<close>

fun escape :: "string \<Rightarrow> string" where
  "escape [] = []"
| "escape (c # cs) = (if c = DQ then [DQ, DQ] else [c]) @ escape cs"

definition writeField :: "string \<Rightarrow> string" where
  "writeField field = (if fieldNeedsQuotes field then DQ # escape field @ [DQ] else field)"

fun write_fields :: "string list \<Rightarrow> string" where
  "write_fields [] = []"
| "write_fields [f] = writeField f"
| "write_fields (f # fs) = writeField f @ COMMA # write_fields fs"

text \<open>\<open>Writer.Write\<close>: the fields separated by commas, then a line feed.\<close>

definition csv_Write :: "string list \<Rightarrow> string" where
  "csv_Write rcd = write_fields rcd @ [NL]"

subsection \<open>encoding/csv: the Reader\<close>

datatype csv_error = ErrBareQuote | ErrQuote | ErrFieldCount

definition lengthNL :: "string \<Rightarrow> nat" where
  "lengthNL b = (if b \<noteq> [] \<and> last b = NL then 1 else 0)"

text \<open>
  \<open>readLine\<close>: the input up to and with the next line feed, and the input after it. A
  line the end of input cuts short loses a trailing carriage return; a line that ends in
  carriage return and line feed ends in a line feed alone. The empty line is the end of
  input.
\<close>

definition normalizeCRLF :: "string \<Rightarrow> string" where
  "normalizeCRLF line =
     (let n = length line
      in if n \<ge> 2 \<and> line ! (n - 2) = CR \<and> line ! (n - 1) = NL then take (n - 2) line @ [NL]
         else line)"

definition readLine :: "string \<Rightarrow> string \<times> string" where
  "readLine inp =
     (let a = takeWhile (\<lambda>c. c \<noteq> NL) inp;
          r = dropWhile (\<lambda>c. c \<noteq> NL) inp
      in if r = [] then (normalizeCRLF (if a \<noteq> [] \<and> last a = CR then butlast a else a), [])
         else (normalizeCRLF (a @ [NL]), tl r))"

lemma normalizeCRLF_length: "length (normalizeCRLF line) \<le> length line"
proof -
  have "2 \<le> length line \<Longrightarrow> Suc (length line - 2) \<le> length line" by linarith
  then show ?thesis by (simp add: normalizeCRLF_def Let_def)
qed

lemma readLine_no_NL:
  "NL \<notin> set inp \<Longrightarrow>
   readLine inp = (normalizeCRLF (if inp \<noteq> [] \<and> last inp = CR then butlast inp else inp), [])"
proof -
  assume a: "NL \<notin> set inp"
  then have t: "takeWhile (\<lambda>c. c \<noteq> NL) inp = inp" by (induction inp) auto
  from a have d: "dropWhile (\<lambda>c. c \<noteq> NL) inp = []" by (induction inp) auto
  show ?thesis unfolding readLine_def Let_def t d by simp
qed

lemma readLine_NL:
  "NL \<notin> set a \<Longrightarrow> readLine (a @ NL # r) = (normalizeCRLF (a @ [NL]), r)"
proof -
  assume a: "NL \<notin> set a"
  then have t: "takeWhile (\<lambda>c. c \<noteq> NL) (a @ NL # r) = a" by (induction a) auto
  from a have d: "dropWhile (\<lambda>c. c \<noteq> NL) (a @ NL # r) = NL # r" by (induction a) auto
  show ?thesis unfolding readLine_def Let_def t d by simp
qed

lemma readLine_length:
  "length (fst (readLine inp)) + length (snd (readLine inp)) \<le> length inp"
proof (cases "NL \<in> set inp")
  case False
  let ?l = "if inp \<noteq> [] \<and> last inp = CR then butlast inp else inp"
  have "length (normalizeCRLF ?l) \<le> length ?l" by (rule normalizeCRLF_length)
  also have "\<dots> \<le> length inp" by simp
  finally show ?thesis using False by (simp add: readLine_no_NL)
next
  case True
  then obtain a r where inp: "inp = a @ NL # r" and a: "NL \<notin> set a"
    by (auto dest: split_list_first)
  have "length (normalizeCRLF (a @ [NL])) \<le> length (a @ [NL])" by (rule normalizeCRLF_length)
  then show ?thesis using a by (simp add: inp readLine_NL)
qed

lemma tl_shorter: "xs \<noteq> [] \<Longrightarrow> length (tl xs) < length xs"
  by (cases xs) simp_all

text \<open>
  The fields of one record. \<open>parseField\<close> stands at the start of a field, with the rest of
  the current line, the input after that line and the fields read so far. \<open>quotedField\<close>
  is inside a quoted field, whose text so far is \<open>buf\<close>; a quoted field that the line does
  not close goes on with the next line. The result is the record and the input left.
\<close>

function parseField :: "string \<Rightarrow> string \<Rightarrow> string list \<Rightarrow> csv_error + string list \<times> string"
  and quotedField :: "string \<Rightarrow> string \<Rightarrow> string list \<Rightarrow> string \<Rightarrow> csv_error + string list \<times> string"
where
  "parseField line rest flds =
     (if line = [] \<or> hd line \<noteq> DQ then
        (let pre = takeWhile (\<lambda>c. c \<noteq> COMMA) line;
             post = dropWhile (\<lambda>c. c \<noteq> COMMA) line;
             field = (if post \<noteq> [] then pre else take (length line - lengthNL line) line)
         in if DQ \<in> set field then Inl ErrBareQuote
            else if post \<noteq> [] then parseField (tl post) rest (flds @ [field])
            else Inr (flds @ [field], rest))
      else quotedField (tl line) rest flds [])"
| "quotedField line rest flds buf =
     (let pre = takeWhile (\<lambda>c. c \<noteq> DQ) line;
          post = dropWhile (\<lambda>c. c \<noteq> DQ) line
      in if post \<noteq> [] then
           (let line' = tl post
            in if line' \<noteq> [] \<and> hd line' = DQ then quotedField (tl line') rest flds (buf @ pre @ [DQ])
               else if line' \<noteq> [] \<and> hd line' = COMMA then parseField (tl line') rest (flds @ [buf @ pre])
               else if lengthNL line' = length line' then Inr (flds @ [buf @ pre], rest)
               else Inl ErrQuote)
         else if line \<noteq> [] then
           quotedField (fst (readLine rest)) (snd (readLine rest)) flds (buf @ line)
         else Inl ErrQuote)"
  by pat_completeness auto
termination
proof (relation "measure (\<lambda>x. case x of Inl (line, rest, flds) \<Rightarrow> 2 * (length line + length rest) + 1
                                  | Inr (line, rest, flds, buf) \<Rightarrow> 2 * (length line + length rest))",
       goal_cases)
  case 1
  show ?case by simp
next
  case (2 line rest flds x xa xb)
  have "length xa \<le> length line"
    using 2 length_dropWhile_le [of "\<lambda>c. c \<noteq> COMMA" line] by simp
  moreover from 2 have "xa \<noteq> []" by simp
  then have "length (tl xa) < length xa" by (rule tl_shorter)
  ultimately show ?case by simp
next
  case (3 line rest flds)
  then have "length (tl line) < length line" by (simp add: tl_shorter)
  then show ?case by simp
next
  case (4 line rest flds buf x xa xb)
  have "length xa \<le> length line"
    using 4 length_dropWhile_le [of "\<lambda>c. c \<noteq> DQ" line] by simp
  moreover from 4 have xa: "xa \<noteq> []" and xb: "xb = tl xa" and xb2: "xb \<noteq> []"
    by simp_all
  have "length xb < length xa" unfolding xb using xa by (rule tl_shorter)
  moreover have "length (tl xb) < length xb" using xb2 by (rule tl_shorter)
  ultimately show ?case by simp
next
  case (5 line rest flds buf x xa xb)
  have "length xa \<le> length line"
    using 5 length_dropWhile_le [of "\<lambda>c. c \<noteq> DQ" line] by simp
  moreover from 5 have xa: "xa \<noteq> []" and xb: "xb = tl xa" and xb2: "xb \<noteq> []"
    by simp_all
  have "length xb < length xa" unfolding xb using xa by (rule tl_shorter)
  moreover have "length (tl xb) < length xb" using xb2 by (rule tl_shorter)
  ultimately show ?case by simp
next
  case (6 line rest flds buf x xa)
  then have "0 < length line" by simp
  moreover note readLine_length [of rest]
  ultimately have "length (fst (readLine rest)) + length (snd (readLine rest))
      < length line + length rest" by linarith
  then show ?case by simp
qed


declare parseField.simps [simp del] quotedField.simps [simp del]

lemma readLine_consumes:
  "fst (readLine inp) \<noteq> [] \<Longrightarrow> length (snd (readLine inp)) < length inp"
proof (cases "NL \<in> set inp")
  case False
  assume "fst (readLine inp) \<noteq> []"
  then have "inp \<noteq> []"
    by (auto simp: readLine_def normalizeCRLF_def)
  then show ?thesis using False by (simp add: readLine_no_NL)
next
  case True
  then obtain a r where inp: "inp = a @ NL # r" and a: "NL \<notin> set a"
    by (auto dest: split_list_first)
  show ?thesis using a by (simp add: inp readLine_NL)
qed

text \<open>
  \<open>readRecord\<close> without the field count: it skips empty lines; \<open>None\<close> is the end of
  input.
\<close>

function readRecord :: "string \<Rightarrow> (csv_error + string list \<times> string) option" where
  "readRecord inp =
     (if fst (readLine inp) = [] then None
      else if length (fst (readLine inp)) = lengthNL (fst (readLine inp)) then readRecord (snd (readLine inp))
      else Some (parseField (fst (readLine inp)) (snd (readLine inp)) []))"
  by pat_completeness auto
termination
  by (relation "measure length") (simp_all add: readLine_consumes)

declare readRecord.simps [simp del]


lemma parse_rest_length:
  "parseField line rest flds = Inr (rcd, rest') \<Longrightarrow> length rest' \<le> length rest"
  "quotedField line rest flds buf = Inr (rcd, rest') \<Longrightarrow> length rest' \<le> length rest"
proof (induction line rest flds and line rest flds buf rule: parseField_quotedField.induct)
  case (1 line rest flds)
  let ?post = "dropWhile (\<lambda>c. c \<noteq> COMMA) line"
  let ?field = "if ?post \<noteq> [] then takeWhile (\<lambda>c. c \<noteq> COMMA) line
                else take (length line - lengthNL line) line"
  show ?case
  proof (cases "line = [] \<or> hd line \<noteq> DQ")
    case True
    show ?thesis
    proof (cases "?post \<noteq> []")
      case p: True
      have nq: "DQ \<notin> set ?field"
        using "1.prems" True by (subst (asm) parseField.simps) (simp add: Let_def split: if_splits)
      have "parseField (tl ?post) rest (flds @ [?field]) = Inr (rcd, rest')"
        using "1.prems" True p by (subst (asm) parseField.simps) (simp add: Let_def split: if_splits)
      from "1.IH"(1) [OF True refl refl refl nq p this] show ?thesis .
    next
      case p: False
      have "rest' = rest"
        using "1.prems" True p by (subst (asm) parseField.simps) (simp add: Let_def split: if_splits)
      then show ?thesis by simp
    qed
  next
    case False
    have "quotedField (tl line) rest flds [] = Inr (rcd, rest')"
      using "1.prems" False by (subst (asm) parseField.simps) simp
    from "1.IH"(2) [OF False this] show ?thesis .
  qed
next
  case (2 line rest flds buf)
  let ?pre = "takeWhile (\<lambda>c. c \<noteq> DQ) line"
  let ?post = "dropWhile (\<lambda>c. c \<noteq> DQ) line"
  show ?case
  proof (cases "?post \<noteq> []")
    case p: True
    show ?thesis
    proof (cases "tl ?post \<noteq> [] \<and> hd (tl ?post) = DQ")
      case q: True
      have "quotedField (tl (tl ?post)) rest flds (buf @ ?pre @ [DQ]) = Inr (rcd, rest')"
        using "2.prems" p q by (subst (asm) quotedField.simps) (simp add: Let_def)
      from "2.IH"(1) [OF refl refl p refl q this] show ?thesis .
    next
      case q: False
      show ?thesis
      proof (cases "tl ?post \<noteq> [] \<and> hd (tl ?post) = COMMA")
        case c: True
        have "parseField (tl (tl ?post)) rest (flds @ [buf @ ?pre]) = Inr (rcd, rest')"
          using "2.prems" p q c by (subst (asm) quotedField.simps) (simp add: Let_def)
        from "2.IH"(2) [OF refl refl p refl q c this] show ?thesis .
      next
        case c: False
        have "rest' = rest"
          using "2.prems" p q c
          by (subst (asm) quotedField.simps) (simp add: Let_def split: if_splits)
        then show ?thesis by simp
      qed
    qed
  next
    case p: False
    then have p': "\<not> ?post \<noteq> []" by simp
    have l: "line \<noteq> []"
      using "2.prems" p by (subst (asm) quotedField.simps) (simp add: Let_def split: if_splits)
    have "quotedField (fst (readLine rest)) (snd (readLine rest)) flds (buf @ line) = Inr (rcd, rest')"
      using "2.prems" p l by (subst (asm) quotedField.simps) (simp add: Let_def)
    from "2.IH"(3) [OF refl refl p' l this]
    have "length rest' \<le> length (snd (readLine rest))" .
    then show ?thesis using readLine_length [of rest] by linarith
  qed
qed

lemma readRecord_consumes:
  "readRecord inp = Some (Inr (rcd, rest')) \<Longrightarrow> length rest' < length inp"
proof (induction inp rule: readRecord.induct)
  case (1 inp)
  have ne: "fst (readLine inp) \<noteq> []"
    using "1.prems" by (subst (asm) readRecord.simps) (simp split: if_splits)
  then have short: "length (snd (readLine inp)) < length inp"
    by (rule readLine_consumes)
  show ?case
  proof (cases "length (fst (readLine inp)) = lengthNL (fst (readLine inp))")
    case True
    have "readRecord (snd (readLine inp)) = Some (Inr (rcd, rest'))"
      using "1.prems" ne True by (subst (asm) readRecord.simps) simp
    from "1.IH" [OF ne True this] short show ?thesis by linarith
  next
    case False
    have "parseField (fst (readLine inp)) (snd (readLine inp)) [] = Inr (rcd, rest')"
      using "1.prems" ne False by (subst (asm) readRecord.simps) simp
    from parse_rest_length(1) [OF this] short show ?thesis by linarith
  qed
qed

text \<open>
  \<open>ReadAll\<close>: records until the end of input. \<open>FieldsPerRecord\<close> starts at 0, takes the
  number of fields of the first record, and every later record with another number of
  fields is the error \<open>ErrFieldCount\<close>. The first error ends the read.
\<close>

function readAll_loop :: "nat \<Rightarrow> string \<Rightarrow> csv_error + string list list" where
  "readAll_loop fieldsPerRecord inp =
     (case readRecord inp of
        None \<Rightarrow> Inr []
      | Some (Inl e) \<Rightarrow> Inl e
      | Some (Inr (rcd, rest)) \<Rightarrow>
          if fieldsPerRecord > 0 \<and> length rcd \<noteq> fieldsPerRecord then Inl ErrFieldCount
          else
            (case readAll_loop (if fieldsPerRecord = 0 then length rcd else fieldsPerRecord) rest of
               Inl e \<Rightarrow> Inl e
             | Inr records \<Rightarrow> Inr (rcd # records)))"
  by pat_completeness auto
termination
  by (relation "measure (\<lambda>(fieldsPerRecord, inp). length inp)") (auto intro: readRecord_consumes)

declare readAll_loop.simps [simp del]

definition csv_ReadAll :: "string \<Rightarrow> csv_error + string list list" where
  "csv_ReadAll inp = readAll_loop 0 inp"


subsection \<open>The data file\<close>

text \<open>
  All commands work on the one file \<open>dataFile\<close>. The state of the world is whether that
  file can be opened and locked, and its bytes (\<open>None\<close>: the file does not exist).
  Errors the commands return and the two run-time panics of main.go are values of one
  type; a panic ends the process and is never returned as an \<open>error\<close>.
\<close>

record fs =
  openable :: bool
  lockable :: bool
  content :: "string option"

datatype error =
    ErrOpen
  | ErrLock
  | ErrReadCSV csv_error
  | ErrInvalidTaskID string
  | ErrNotFound int
  | PanicIndexOutOfRange
  | PanicMakesliceCap

text \<open>
  \<open>loadFile\<close>: \<open>os.OpenFile\<close> with \<open>O_RDWR|O_CREATE\<close> creates a missing file empty and
  leaves the bytes of an existing file as they are; then the exclusive lock is taken. The
  result is the bytes the handle reads from offset 0.
\<close>

definition file_bytes :: "fs \<Rightarrow> string" where
  "file_bytes s = (case content s of None \<Rightarrow> [] | Some c \<Rightarrow> c)"

definition loadFile :: "fs \<Rightarrow> (error + string) \<times> fs" where
  "loadFile s =
     (if \<not> openable s then (Inl ErrOpen, s)
      else
        let s' = s\<lparr>content := Some (file_bytes s)\<rparr>
        in if \<not> lockable s then (Inl ErrLock, s') else (Inr (file_bytes s), s'))"

subsection \<open>loadTasks\<close>

text \<open>
  The body of the loop of \<open>loadTasks\<close> for one record after the header. Reading
  \<open>record[0]\<close> to \<open>record[3]\<close> of a shorter record panics; the errors of \<open>Atoi\<close>,
  \<open>time.Parse\<close> and \<open>ParseBool\<close> are dropped and the values they return are kept.
\<close>

definition decode_record :: "string list \<Rightarrow> error + Task" where
  "decode_record rcd =
     (if length rcd < 4 then Inl PanicIndexOutOfRange
      else Inr \<lparr>ID = fst (Atoi (rcd ! 0)),
                Description = rcd ! 1,
                CreatedAt = (case time_Parse (rcd ! 2) of None \<Rightarrow> zero_time | Some t \<Rightarrow> t),
                IsCompleted = fst (ParseBool (rcd ! 3))\<rparr>)"

fun decode_loop :: "Task list \<Rightarrow> string list list \<Rightarrow> error + Task list" where
  "decode_loop tasks [] = Inr tasks"
| "decode_loop tasks (rcd # records) =
     (case decode_record rcd of
        Inl e \<Rightarrow> Inl e
      | Inr task \<Rightarrow> decode_loop (tasks @ [task]) records)"

definition loadTasks :: "fs \<Rightarrow> (error + Task list) \<times> fs" where
  "loadTasks s =
     (case loadFile s of
        (Inl e, s') \<Rightarrow> (Inl e, s')
      | (Inr bytes, s') \<Rightarrow>
          (case csv_ReadAll bytes of
             Inl e \<Rightarrow> (Inl (ErrReadCSV e), s')
           | Inr records \<Rightarrow> (decode_loop [] (drop 1 records), s')))"

subsection \<open>saveTasks\<close>

definition header :: "string list" where
  "header = [''ID'', ''Description'', ''CreatedAt'', ''IsCompleted'']"

definition encode_record :: "Task \<Rightarrow> string list" where
  "encode_record task =
     [Itoa (ID task), Description task, time_Format (CreatedAt task), FormatBool (IsCompleted task)]"

text \<open>The bytes the csv writer produces: the header line, then one line per task.\<close>

fun write_tasks :: "Task list \<Rightarrow> string" where
  "write_tasks [] = []"
| "write_tasks (task # tasks) = csv_Write (encode_record task) @ write_tasks tasks"

definition csv_output :: "Task list \<Rightarrow> string" where
  "csv_output tasks = csv_Write header @ write_tasks tasks"

text \<open>
  The handle of \<open>loadFile\<close> is opened without \<open>O_TRUNC\<close> and nothing truncates it: the
  flushed bytes replace the file from offset 0, and what the file held beyond them stays.
  The writes and the flush are taken to succeed.
\<close>

definition write_at_start :: "string \<Rightarrow> string \<Rightarrow> string" where
  "write_at_start new old = new @ drop (length new) old"

definition saveTasks :: "Task list \<Rightarrow> fs \<Rightarrow> error option \<times> fs" where
  "saveTasks tasks s =
     (case loadFile s of
        (Inl e, s') \<Rightarrow> (Some e, s')
      | (Inr old, s') \<Rightarrow> (None, s'\<lparr>content := Some (write_at_start (csv_output tasks) old)\<rparr>))"

subsection \<open>The commands\<close>

text \<open>
  Each command takes its argument, the state of the file, and returns the error or the
  text it prints, with the new state. \<open>addCmd\<close> also takes the value of \<open>time.Now()\<close>.
\<close>

definition addCmd :: "string \<Rightarrow> time \<Rightarrow> fs \<Rightarrow> (error + string) \<times> fs" where
  "addCmd description now s =
     (case loadTasks s of
        (Inl e, s1) \<Rightarrow> (Inl e, s1)
      | (Inr tasks, s1) \<Rightarrow>
          let newTask = \<lparr>ID = getNextID tasks, Description = description, CreatedAt = now,
                         IsCompleted = False\<rparr>
          in (case saveTasks (tasks @ [newTask]) s1 of
                (Some e, s2) \<Rightarrow> (Inl e, s2)
              | (None, s2) \<Rightarrow>
                  (Inr (''Added tasks '' @ Itoa (ID newTask) @ '': '' @ description @ [NL]), s2)))"

text \<open>
  \<open>listCmd\<close> writes a header line and one line per listed task to a tabwriter. The model
  returns these lines as they are handed to the tabwriter; \<open>timeDiff\<close> stands for
  \<open>timediff.TimeDiff\<close>, the relative age of a timestamp.
\<close>

definition task_row :: "(time \<Rightarrow> string) \<Rightarrow> bool \<Rightarrow> Task \<Rightarrow> string" where
  "task_row timeDiff showAll task =
     (if showAll then
        Itoa (ID task) @ [CHR 0x09] @ Description task @ [CHR 0x09] @ timeDiff (CreatedAt task)
        @ [CHR 0x09] @ FormatBool (IsCompleted task) @ [NL]
      else
        Itoa (ID task) @ [CHR 0x09] @ Description task @ [CHR 0x09] @ timeDiff (CreatedAt task) @ [NL])"

definition header_row :: "bool \<Rightarrow> string" where
  "header_row showAll =
     (if showAll then ''ID'' @ [CHR 0x09] @ ''Task'' @ [CHR 0x09] @ ''Created'' @ [CHR 0x09] @ ''Done'' @ [NL]
      else ''ID'' @ [CHR 0x09] @ ''Task'' @ [CHR 0x09] @ ''Created'' @ [NL])"

fun list_loop :: "(time \<Rightarrow> string) \<Rightarrow> bool \<Rightarrow> string list \<Rightarrow> Task list \<Rightarrow> string list" where
  "list_loop timeDiff showAll out [] = out"
| "list_loop timeDiff showAll out (task # tasks) =
     (if \<not> showAll \<and> IsCompleted task then list_loop timeDiff showAll out tasks
      else list_loop timeDiff showAll (out @ [task_row timeDiff showAll task]) tasks)"

definition listCmd :: "(time \<Rightarrow> string) \<Rightarrow> bool \<Rightarrow> fs \<Rightarrow> (error + string list) \<times> fs" where
  "listCmd timeDiff showAll s =
     (case loadTasks s of
        (Inl e, s1) \<Rightarrow> (Inl e, s1)
      | (Inr tasks, s1) \<Rightarrow> (Inr (list_loop timeDiff showAll [header_row showAll] tasks), s1))"

text \<open>The loop of \<open>completeCmd\<close>: the first task with the ID is marked, then \<open>break\<close>.\<close>

fun complete_loop :: "int \<Rightarrow> Task list \<Rightarrow> bool \<times> Task list" where
  "complete_loop tid [] = (False, [])"
| "complete_loop tid (task # tasks) =
     (if ID task = tid then (True, task\<lparr>IsCompleted := True\<rparr> # tasks)
      else (case complete_loop tid tasks of (found, tasks') \<Rightarrow> (found, task # tasks')))"

definition completeCmd :: "string \<Rightarrow> fs \<Rightarrow> (error + string) \<times> fs" where
  "completeCmd arg s =
     (case Atoi arg of
        (tid, Some err) \<Rightarrow> (Inl (ErrInvalidTaskID arg), s)
      | (tid, None) \<Rightarrow>
          (case loadTasks s of
             (Inl e, s1) \<Rightarrow> (Inl e, s1)
           | (Inr tasks, s1) \<Rightarrow>
               (case complete_loop tid tasks of
                  (False, tasks') \<Rightarrow> (Inl (ErrNotFound tid), s1)
                | (True, tasks') \<Rightarrow>
                    (case saveTasks tasks' s1 of
                       (Some e, s2) \<Rightarrow> (Inl e, s2)
                     | (None, s2) \<Rightarrow>
                         (Inr (''Marked task '' @ Itoa tid @ '' as complete'' @ [NL]), s2)))))"

text \<open>The loop of \<open>deleteCmd\<close>: every task with the ID is left out of \<open>newTasks\<close>.\<close>

fun delete_loop :: "int \<Rightarrow> bool \<Rightarrow> Task list \<Rightarrow> Task list \<Rightarrow> bool \<times> Task list" where
  "delete_loop tid found newTasks [] = (found, newTasks)"
| "delete_loop tid found newTasks (task # tasks) =
     (if ID task = tid then delete_loop tid True newTasks tasks
      else delete_loop tid found (newTasks @ [task]) tasks)"

text \<open>
  \<open>make([]Task, 0, len(tasks)-1)\<close> panics when \<open>tasks\<close> is empty: the capacity is
  negative.
\<close>

definition deleteCmd :: "string \<Rightarrow> fs \<Rightarrow> (error + string) \<times> fs" where
  "deleteCmd arg s =
     (case Atoi arg of
        (tid, Some err) \<Rightarrow> (Inl (ErrInvalidTaskID arg), s)
      | (tid, None) \<Rightarrow>
          (case loadTasks s of
             (Inl e, s1) \<Rightarrow> (Inl e, s1)
           | (Inr tasks, s1) \<Rightarrow>
               if tasks = [] then (Inl PanicMakesliceCap, s1)
               else
                 (case delete_loop tid False [] tasks of
                    (False, newTasks) \<Rightarrow> (Inl (ErrNotFound tid), s1)
                  | (True, newTasks) \<Rightarrow>
                      (case saveTasks newTasks s1 of
                         (Some e, s2) \<Rightarrow> (Inl e, s2)
                       | (None, s2) \<Rightarrow> (Inr (''Deleted task '' @ Itoa tid @ [NL]), s2)))))"

text \<open>A history of commands, run one after the other; a failing command changes nothing more.\<close>

datatype command = Add string time | Complete string | Delete string

fun run :: "command \<Rightarrow> fs \<Rightarrow> (error + string) \<times> fs" where
  "run (Add description now) s = addCmd description now s"
| "run (Complete arg) s = completeCmd arg s"
| "run (Delete arg) s = deleteCmd arg s"

fun run_all :: "command list \<Rightarrow> fs \<Rightarrow> fs" where
  "run_all [] s = s"
| "run_all (c # cs) s = run_all cs (snd (run c s))"


section \<open>Predicates and examples of the statements\<close>

subsection \<open>Timestamps the layout can carry\<close>

text \<open>
  The timestamps the RFC3339 layout can carry: a year of four digits, a date of the
  calendar, a time of day, and a zone offset of whole minutes below 24 hours.
\<close>

definition representable :: "time \<Rightarrow> bool" where
  "representable t \<longleftrightarrow>
     0 \<le> Year t \<and> Year t \<le> 9999 \<and> 1 \<le> Month t \<and> Month t \<le> 12
     \<and> 1 \<le> Day t \<and> Day t \<le> daysIn (Month t) (Year t)
     \<and> Hour t < 24 \<and> Minute t < 60 \<and> Second t < 60
     \<and> zoneOffset t mod 60 = 0 \<and> - 86400 < zoneOffset t \<and> zoneOffset t < 86400"

subsection \<open>Texts the reader hands on unchanged\<close>

text \<open>
  A text without a carriage return directly before a line feed: the reader hands such a
  text on byte for byte.
\<close>

fun no_crlf :: "string \<Rightarrow> bool" where
  "no_crlf (a # b # cs) = (\<not> (a = CR \<and> b = NL) \<and> no_crlf (b # cs))"
| "no_crlf cs = True"

text \<open>The first line of a text that holds a line feed, and the text after that line.\<close>

definition first_line :: "string \<Rightarrow> string" where
  "first_line y = takeWhile (\<lambda>c. c \<noteq> NL) y @ [NL]"

definition after_line :: "string \<Rightarrow> string" where
  "after_line y = tl (dropWhile (\<lambda>c. c \<noteq> NL) y)"

subsection \<open>Tasks the file can carry\<close>

text \<open>
  A task the file can carry: its ID is a 64-bit integer, its description has no carriage
  return directly before a line feed, and its timestamp is one the layout can carry.
  \<open>stored\<close> is the task as it comes back: the fraction of the second is gone.
\<close>

definition valid_task :: "Task \<Rightarrow> bool" where
  "valid_task task \<longleftrightarrow>
     minInt \<le> ID task \<and> ID task \<le> maxInt \<and> no_crlf (Description task)
     \<and> representable (CreatedAt task)"

definition stored :: "Task \<Rightarrow> Task" where
  "stored task = task\<lparr>CreatedAt := (CreatedAt task)\<lparr>Nanosecond := 0\<rparr>\<rparr>"

subsection \<open>The decoding in the words of the specification\<close>


subsection \<open>Histories of adds\<close>

text \<open>
  A history of adds. \<open>added_tasks k adds\<close> are the tasks the adds create when the first
  of them gets the ID \<open>k\<close> and each later one the next number.
\<close>

fun added_tasks :: "int \<Rightarrow> (string \<times> time) list \<Rightarrow> Task list" where
  "added_tasks k [] = []"
| "added_tasks k ((d, now) # adds) =
     \<lparr>ID = k, Description = d, CreatedAt = now, IsCompleted = False\<rparr> # added_tasks (k + 1) adds"

definition add_commands :: "(string \<times> time) list \<Rightarrow> command list" where
  "add_commands adds = map (\<lambda>(d, now). Add d now) adds"

subsection \<open>Example tasks and stores\<close>

text \<open>Concrete tasks and stores for the examples below.\<close>

definition ex_time :: time where
  "ex_time = \<lparr>Year = 2024, Month = 1, Day = 2, Hour = 3, Minute = 4, Second = 5,
               Nanosecond = 0, zoneOffset = 19800\<rparr>"

definition ex_task :: "int \<Rightarrow> string \<Rightarrow> bool \<Rightarrow> Task" where
  "ex_task i d c = \<lparr>ID = i, Description = d, CreatedAt = ex_time, IsCompleted = c\<rparr>"

definition ex_store :: "string \<Rightarrow> fs" where
  "ex_store bytes = \<lparr>openable = True, lockable = True, content = Some bytes\<rparr>"

definition ex_dup :: fs where
  "ex_dup = ex_store (csv_output [ex_task 1 ''a'' False, ex_task 7 ''b'' True, ex_task 7 ''c'' False])"

definition ex_new :: fs where
  "ex_new = \<lparr>openable = True, lockable = True, content = None\<rparr>"



section \<open>Properties of the loops\<close>

lemma maxID_loop_fold: "maxID_loop m tasks = fold max (map ID tasks) m"
  by (induction tasks arbitrary: m) (simp_all add: max_def)

lemma maxID_loop_Max: "maxID_loop m tasks = Max (insert m (ID ` set tasks))"
proof -
  have "Max (set (m # map ID tasks)) = fold max (map ID tasks) m"
    by (rule Max.set_eq_fold)
  then show ?thesis by (simp add: maxID_loop_fold)
qed

lemma wrap64_id: "minInt \<le> x \<Longrightarrow> x \<le> maxInt \<Longrightarrow> wrap64 x = x"
  by (simp add: wrap64_def minInt_def maxInt_def)


lemma complete_loop_absent:
  "\<forall>x \<in> set tasks. ID x \<noteq> tid \<Longrightarrow> complete_loop tid tasks = (False, tasks)"
  by (induction tasks) simp_all

lemma delete_loop_filter:
  "delete_loop tid found newTasks tasks =
     (found \<or> tid \<in> ID ` set tasks, newTasks @ filter (\<lambda>x. ID x \<noteq> tid) tasks)"
  by (induction tasks arbitrary: found newTasks) auto

lemma list_loop_rows:
  "list_loop timeDiff showAll out tasks =
     out @ map (task_row timeDiff showAll) (filter (\<lambda>t. showAll \<or> \<not> IsCompleted t) tasks)"
  by (induction tasks arbitrary: out) auto


section \<open>The file handle\<close>

lemma loadFile_ok:
  "openable s \<Longrightarrow> lockable s \<Longrightarrow> loadFile s = (Inr (file_bytes s), s\<lparr>content := Some (file_bytes s)\<rparr>)"
  by (simp add: loadFile_def)

lemma loadFile_Inr:
  "loadFile s = (Inr bytes, s1) \<Longrightarrow>
   openable s \<and> lockable s \<and> bytes = file_bytes s \<and> s1 = s\<lparr>content := Some (file_bytes s)\<rparr>"
  by (auto simp: loadFile_def Let_def split: if_splits)

lemma loadTasks_Inr:
  "loadTasks s = (Inr tasks, s1) \<Longrightarrow>
   openable s \<and> lockable s \<and> s1 = s\<lparr>content := Some (file_bytes s)\<rparr>"
  by (auto simp: loadTasks_def split: prod.splits sum.splits dest: loadFile_Inr)

lemma loadTasks_state:
  "loadTasks s = (Inr tasks, s1) \<Longrightarrow>
   openable s1 \<and> lockable s1 \<and> file_bytes s1 = file_bytes s \<and> content s1 = Some (file_bytes s)"
  by (auto dest!: loadTasks_Inr simp: file_bytes_def)

lemma saveTasks_ok:
  "openable s \<Longrightarrow> lockable s \<Longrightarrow>
   saveTasks tasks s = (None, s\<lparr>content := Some (write_at_start (csv_output tasks) (file_bytes s))\<rparr>)"
  by (simp add: saveTasks_def loadFile_ok)

lemma saveTasks_after_load:
  "loadTasks s = (Inr tasks, s1) \<Longrightarrow>
   saveTasks tasks' s1 = (None, s1\<lparr>content := Some (write_at_start (csv_output tasks') (file_bytes s))\<rparr>)"
  using loadTasks_state [of s tasks s1] by (simp add: saveTasks_ok)

section \<open>Round trips of the text encodings\<close>

subsection \<open>Integers and booleans\<close>

lemma of_char_digit_char: "d < 10 \<Longrightarrow> (of_char (digit_char d) :: nat) = 48 + d"
  by (simp add: digit_char_def)

lemma digit_val_digit_char: "d < 10 \<Longrightarrow> digit_val (digit_char d) = d"
  by (simp add: digit_val_def of_char_digit_char)

lemma is_digit_digit_char: "d < 10 \<Longrightarrow> is_digit (digit_char d)"
  by (simp add: is_digit_def of_char_digit_char)

lemma digits_val_snoc: "digits_val acc (cs @ [c]) = digits_val acc cs * 10 + digit_val c"
  by (induction cs arbitrary: acc) simp_all

lemma digits_val_nat_digits: "digits_val 0 (nat_digits n) = n"
proof (induction n rule: nat_digits.induct)
  case (1 n)
  show ?case
  proof (cases "n < 10")
    case True
    then show ?thesis by (simp add: digit_val_digit_char)
  next
    case False
    then have "nat_digits n = nat_digits (n div 10) @ [digit_char (n mod 10)]" by simp
    then have "digits_val 0 (nat_digits n) = digits_val 0 (nat_digits (n div 10)) * 10 + n mod 10"
      by (simp add: digits_val_snoc digit_val_digit_char)
    with False "1.IH" show ?thesis by simp
  qed
qed

lemma nat_digits_all_digits: "list_all is_digit (nat_digits n)"
proof (induction n rule: nat_digits.induct)
  case (1 n)
  show ?case
  proof (cases "n < 10")
    case True
    then show ?thesis by (simp add: is_digit_digit_char)
  next
    case False
    then have "nat_digits n = nat_digits (n div 10) @ [digit_char (n mod 10)]" by simp
    with False "1.IH" show ?thesis by (simp add: is_digit_digit_char)
  qed
qed

lemma nat_digits_nonempty: "nat_digits n \<noteq> []"
  by (subst nat_digits.simps) simp

declare nat_digits.simps [simp del]

lemma is_digit_not_sign: "is_digit c \<Longrightarrow> c \<noteq> CHR ''-'' \<and> c \<noteq> CHR ''+''"
  by (auto simp: is_digit_def)

lemma hd_nat_digits_not_sign: "hd (nat_digits n) \<noteq> CHR ''-'' \<and> hd (nat_digits n) \<noteq> CHR ''+''"
proof -
  have "is_digit (hd (nat_digits n))"
    using nat_digits_all_digits [of n] nat_digits_nonempty [of n]
    by (cases "nat_digits n") simp_all
  then show ?thesis by (rule is_digit_not_sign)
qed

lemma Atoi_Itoa: "minInt \<le> i \<Longrightarrow> i \<le> maxInt \<Longrightarrow> Atoi (Itoa i) = (i, None)"
proof (cases "i < 0")
  case False
  assume "i \<le> maxInt"
  then have "i < 2 ^ 63" by (simp add: maxInt_def)
  with False show ?thesis
    using hd_nat_digits_not_sign [of "nat i"]
    by (simp add: Atoi_def Itoa_def nat_digits_nonempty nat_digits_all_digits digits_val_nat_digits)
next
  case True
  assume "minInt \<le> i"
  then have "- i \<le> 2 ^ 63" by (simp add: minInt_def)
  with True show ?thesis
    by (simp add: Atoi_def Itoa_def nat_digits_nonempty nat_digits_all_digits digits_val_nat_digits)
qed

lemma ParseBool_FormatBool: "ParseBool (FormatBool b) = (b, None)"
  by (cases b) (simp_all add: ParseBool_def FormatBool_def)


lemma Atoi_range: "minInt \<le> fst (Atoi s) \<and> fst (Atoi s) \<le> maxInt"
  by (auto simp: Atoi_def Let_def minInt_def maxInt_def split: if_splits)



subsection \<open>Timestamps\<close>

lemma digit_char_0: "digit_char 0 = CHR ''0''"
  unfolding digit_char_def by code_simp

lemma nat_digits_1: "n < 10 \<Longrightarrow> nat_digits n = [digit_char n]"
  by (subst nat_digits.simps) simp

lemma nat_digits_2:
  "10 \<le> n \<Longrightarrow> n < 100 \<Longrightarrow> nat_digits n = [digit_char (n div 10), digit_char (n mod 10)]"
  by (subst nat_digits.simps) (simp add: nat_digits_1)

lemma nat_digits_3:
  "100 \<le> n \<Longrightarrow> n < 1000 \<Longrightarrow>
   nat_digits n = [digit_char (n div 10 div 10), digit_char (n div 10 mod 10), digit_char (n mod 10)]"
  by (subst nat_digits.simps) (simp add: nat_digits_2)

lemma nat_digits_4:
  "1000 \<le> n \<Longrightarrow> n < 10000 \<Longrightarrow>
   nat_digits n = [digit_char (n div 10 div 10 div 10), digit_char (n div 10 div 10 mod 10),
                   digit_char (n div 10 mod 10), digit_char (n mod 10)]"
  by (subst nat_digits.simps) (simp add: nat_digits_3)

lemma replicate_zeros:
  "replicate 1 (CHR ''0'') = ''0''" "replicate 2 (CHR ''0'') = ''00''" "replicate 3 (CHR ''0'') = ''000''"
  by code_simp+

lemma appendInt_2:
  assumes "0 \<le> x" "x < 100"
  shows "appendInt x 2 = [digit_char (nat x div 10), digit_char (nat x mod 10)]"
proof (cases "nat x < 10")
  case True
  then show ?thesis using assms by (simp add: appendInt_def nat_digits_1 digit_char_0)
next
  case False
  then have "10 \<le> nat x" "nat x < 100" using assms by simp_all
  then show ?thesis using assms by (simp add: appendInt_def nat_digits_2)
qed

lemma appendInt_4:
  assumes "0 \<le> x" "x < 10000"
  shows "appendInt x 4 =
     [digit_char (nat x div 10 div 10 div 10), digit_char (nat x div 10 div 10 mod 10),
      digit_char (nat x div 10 mod 10), digit_char (nat x mod 10)]"
proof -
  let ?n = "nat x"
  have abs: "\<bar>x\<bar> = x" "\<not> x < 0" using assms by simp_all
  consider "?n < 10" | "10 \<le> ?n" "?n < 100" | "100 \<le> ?n" "?n < 1000" | "1000 \<le> ?n" "?n < 10000"
    using assms by linarith
  then show ?thesis
  proof cases
    case 1
    then show ?thesis
      by (simp add: appendInt_def abs nat_digits_1 digit_char_0 replicate_zeros)
  next
    case 2
    then have "nat_digits ?n = [digit_char (?n div 10), digit_char (?n mod 10)]"
      by (rule nat_digits_2)
    moreover have "?n div 10 div 10 = 0" using 2 by simp
    ultimately show ?thesis
      by (simp add: appendInt_def abs digit_char_0 replicate_zeros)
  next
    case 3
    then have "nat_digits ?n = [digit_char (?n div 10 div 10), digit_char (?n div 10 mod 10), digit_char (?n mod 10)]"
      by (rule nat_digits_3)
    moreover have "?n div 10 div 10 div 10 = 0" using 3 by simp
    ultimately show ?thesis
      by (simp add: appendInt_def abs digit_char_0 replicate_zeros)
  next
    case 4
    then have "nat_digits ?n = [digit_char (?n div 10 div 10 div 10), digit_char (?n div 10 div 10 mod 10),
                   digit_char (?n div 10 mod 10), digit_char (?n mod 10)]"
      by (rule nat_digits_4)
    then show ?thesis
      by (simp add: appendInt_def abs)
  qed
qed

lemma parse_2_digits:
  assumes "n < 100" "lo \<le> n" "n \<le> hi"
  shows "parseUint [digit_char (n div 10), digit_char (n mod 10)] lo hi = Some n"
proof -
  have "n div 10 < 10" using assms(1) by simp
  then show ?thesis
    using assms(2,3) by (simp add: parseUint_def is_digit_digit_char digit_val_digit_char)
qed

lemma parse_4_digits:
  assumes "n < 10000" "lo \<le> n" "n \<le> hi"
  shows "parseUint [digit_char (n div 10 div 10 div 10), digit_char (n div 10 div 10 mod 10),
                    digit_char (n div 10 mod 10), digit_char (n mod 10)] lo hi = Some n"
proof -
  have d: "n div 10 div 10 div 10 < 10" using assms(1) by simp
  have "digits_val 0 [digit_char (n div 10 div 10 div 10), digit_char (n div 10 div 10 mod 10),
                    digit_char (n div 10 mod 10), digit_char (n mod 10)] = n"
    using d by (simp add: digit_val_digit_char)
  then show ?thesis
    using assms(2,3) d by (simp add: parseUint_def is_digit_digit_char del: digits_val.simps)
qed

lemma format_zone_positive:
  assumes "0 < off" "off < 86400" "off mod 60 = 0"
  shows "format_zone off =
     [CHR ''+'', digit_char (nat (off div 60 div 60) div 10), digit_char (nat (off div 60 div 60) mod 10),
      CHR '':'', digit_char (nat (off div 60 mod 60) div 10), digit_char (nat (off div 60 mod 60) mod 10)]"
proof -
  have e: "off div 60 * 60 = off" using assms(3) div_mult_mod_eq [of off 60] by simp
  have z: "0 < off div 60"
  proof (rule ccontr)
    assume "\<not> 0 < off div 60"
    then have "off div 60 \<le> 0" by simp
    then have "off div 60 * 60 \<le> 0 * 60" by (intro mult_right_mono) simp_all
    with e assms(1) show False by simp
  qed
  have h: "0 \<le> off div 60 div 60" "off div 60 div 60 < 100" using assms by simp_all
  have m: "0 \<le> off div 60 mod 60" "off div 60 mod 60 < 100"
    using pos_mod_bound [of 60 "off div 60"] by simp_all
  show ?thesis
    using assms(1) z by (simp add: format_zone_def Let_def appendInt_2 [OF h] appendInt_2 [OF m])
qed

lemma format_zone_negative:
  assumes "off < 0" "- 86400 < off" "off mod 60 = 0"
  shows "format_zone off =
     [CHR ''-'', digit_char (nat ((- off) div 60 div 60) div 10), digit_char (nat ((- off) div 60 div 60) mod 10),
      CHR '':'', digit_char (nat ((- off) div 60 mod 60) div 10), digit_char (nat ((- off) div 60 mod 60) mod 10)]"
proof -
  have "(- off) mod 60 = 0" using assms(3) by (simp add: zmod_zminus1_eq_if)
  then have e: "(- off) div 60 * 60 = - off" using div_mult_mod_eq [of "- off" 60] by simp
  have z: "0 < (- off) div 60"
  proof (rule ccontr)
    assume "\<not> 0 < (- off) div 60"
    then have "(- off) div 60 \<le> 0" by simp
    then have "(- off) div 60 * 60 \<le> 0 * 60" by (intro mult_right_mono) simp_all
    with e assms(1) show False by simp
  qed
  have h: "0 \<le> (- off) div 60 div 60" "(- off) div 60 div 60 < 100" using assms by simp_all
  have m: "0 \<le> (- off) div 60 mod 60" "(- off) div 60 mod 60 < 100"
    using pos_mod_bound [of 60 "(- off) div 60"] by simp_all
  show ?thesis
    using assms(1) z by (simp add: format_zone_def Let_def appendInt_2 [OF h] appendInt_2 [OF m])
qed

lemma digit_char_not_dot: "d < 10 \<Longrightarrow> digit_char d \<noteq> CHR ''.''"
  using is_digit_digit_char [of d] by (auto simp: is_digit_def)

lemma parse_zone_chars:
  assumes "parseUint [a, b] 0 23 = Some h" "parseUint [c, d] 0 59 = Some m"
  shows "parse_fraction [CHR ''+'', a, b, CHR '':'', c, d] = (0, [CHR ''+'', a, b, CHR '':'', c, d])"
    and "parse_zone [CHR ''+'', a, b, CHR '':'', c, d] = Some (int (h * 60 + m) * 60)"
    and "parse_fraction [CHR ''-'', a, b, CHR '':'', c, d] = (0, [CHR ''-'', a, b, CHR '':'', c, d])"
    and "parse_zone [CHR ''-'', a, b, CHR '':'', c, d] = Some (- (int (h * 60 + m) * 60))"
  using assms by (simp_all add: parse_fraction_def parse_zone_def)

lemma parse_zone_format_zone:
  assumes "- 86400 < off" "off < 86400" "off mod 60 = 0"
  shows "parse_fraction (format_zone off) = (0, format_zone off) \<and> parse_zone (format_zone off) = Some off"
proof -
  consider "off = 0" | "0 < off" | "off < 0" by linarith
  then show ?thesis
  proof cases
    case 1
    then show ?thesis by (simp add: format_zone_def parse_fraction_def parse_zone_def)
  next
    case 2
    define h where "h = nat (off div 60 div 60)"
    define m where "m = nat (off div 60 mod 60)"
    have "off div 60 div 60 < 24" using assms(2) by simp
    then have hb: "h < 100" "h \<le> 23" by (simp_all add: h_def)
    have "off div 60 mod 60 < 60" by simp
    then have mb: "m < 100" "m \<le> 59" by (simp_all add: m_def)
    have e1: "off div 60 * 60 = off" using assms(3) div_mult_mod_eq [of off 60] by simp
    have e2: "off div 60 div 60 * 60 + off div 60 mod 60 = off div 60" by simp
    have nn: "0 \<le> off div 60 div 60" "0 \<le> off div 60 mod 60" using 2 by simp_all
    have "int (h * 60 + m) = off div 60" using nn e2 by (simp add: h_def m_def)
    then have val: "int (h * 60 + m) * 60 = off" using e1 by simp
    have hp: "parseUint [digit_char (h div 10), digit_char (h mod 10)] 0 23 = Some h"
      using hb by (intro parse_2_digits) simp_all
    have mp: "parseUint [digit_char (m div 10), digit_char (m mod 10)] 0 59 = Some m"
      using mb by (intro parse_2_digits) simp_all
    note fz = format_zone_positive [OF 2 assms(2,3), folded h_def m_def]
    show ?thesis
      unfolding fz using parse_zone_chars(1,2) [OF hp mp] by (simp only: val)
  next
    case 3
    define h where "h = nat ((- off) div 60 div 60)"
    define m where "m = nat ((- off) div 60 mod 60)"
    have "(- off) div 60 div 60 < 24" using assms(1) by simp
    then have hb: "h < 100" "h \<le> 23" by (simp_all add: h_def)
    have "(- off) div 60 mod 60 < 60" by simp
    then have mb: "m < 100" "m \<le> 59" by (simp_all add: m_def)
    have "(- off) mod 60 = 0" using assms(3) by (simp add: zmod_zminus1_eq_if)
    then have e1: "(- off) div 60 * 60 = - off" using div_mult_mod_eq [of "- off" 60] by simp
    have e2: "(- off) div 60 div 60 * 60 + (- off) div 60 mod 60 = (- off) div 60" by simp
    have nn: "0 \<le> (- off) div 60 div 60" "0 \<le> (- off) div 60 mod 60" using 3 by simp_all
    have "int (h * 60 + m) = (- off) div 60" using nn e2 by (simp add: h_def m_def)
    then have val: "- (int (h * 60 + m) * 60) = off" using e1 by simp
    have hp: "parseUint [digit_char (h div 10), digit_char (h mod 10)] 0 23 = Some h"
      using hb by (intro parse_2_digits) simp_all
    have mp: "parseUint [digit_char (m div 10), digit_char (m mod 10)] 0 59 = Some m"
      using mb by (intro parse_2_digits) simp_all
    note fz = format_zone_negative [OF 3 assms(1,3), folded h_def m_def]
    show ?thesis
      unfolding fz using parse_zone_chars(3,4) [OF hp mp] by (simp only: val)
  qed
qed

lemma length_format_zone:
  assumes "- 86400 < off" "off < 86400" "off mod 60 = 0"
  shows "length (format_zone off) = (if off = 0 then 1 else 6)"
proof -
  consider "off = 0" | "0 < off" | "off < 0" by linarith
  then show ?thesis
  proof cases
    case 1
    then show ?thesis by (simp add: format_zone_def)
  next
    case 2
    then show ?thesis by (simp add: format_zone_positive [OF 2 assms(2,3)])
  next
    case 3
    then show ?thesis by (simp add: format_zone_negative [OF 3 assms(1,3)])
  qed
qed

lemma time_Format_chars:
  assumes "representable t"
  shows "time_Format t =
     [digit_char (nat (Year t) div 10 div 10 div 10), digit_char (nat (Year t) div 10 div 10 mod 10),
      digit_char (nat (Year t) div 10 mod 10), digit_char (nat (Year t) mod 10), CHR ''-'',
      digit_char (Month t div 10), digit_char (Month t mod 10), CHR ''-'',
      digit_char (Day t div 10), digit_char (Day t mod 10), CHR ''T'',
      digit_char (Hour t div 10), digit_char (Hour t mod 10), CHR '':'',
      digit_char (Minute t div 10), digit_char (Minute t mod 10), CHR '':'',
      digit_char (Second t div 10), digit_char (Second t mod 10)] @ format_zone (zoneOffset t)"
proof -
  have y: "0 \<le> Year t" "Year t < 10000" using assms by (simp_all add: representable_def)
  have "Day t \<le> 31" using assms by (auto simp: representable_def daysIn_def split: if_splits)
  then have b: "int (Month t) < 100" "int (Day t) < 100" "int (Hour t) < 100" "int (Minute t) < 100"
    "int (Second t) < 100"
    using assms by (simp_all add: representable_def)
  show ?thesis
    by (simp add: time_Format_def appendInt_4 [OF y] appendInt_2 [OF _ b(1)] appendInt_2 [OF _ b(2)]
        appendInt_2 [OF _ b(3)] appendInt_2 [OF _ b(4)] appendInt_2 [OF _ b(5)])
qed

lemma time_Parse_Format:
  assumes "representable t"
  shows "time_Parse (time_Format t) = Some (t\<lparr>Nanosecond := 0\<rparr>)"
proof -
  define s where "s = time_Format t"
  note chars = time_Format_chars [OF assms, folded s_def]
  have z: "- 86400 < zoneOffset t" "zoneOffset t < 86400" "zoneOffset t mod 60 = 0"
    using assms by (simp_all add: representable_def)
  have d31: "Day t \<le> 31" using assms by (auto simp: representable_def daysIn_def split: if_splits)
  have y0: "0 \<le> Year t" using assms by (simp add: representable_def)
  have len: "\<not> length s < 19" by (simp add: chars)
  have t4: "take 4 s = [digit_char (nat (Year t) div 10 div 10 div 10), digit_char (nat (Year t) div 10 div 10 mod 10),
      digit_char (nat (Year t) div 10 mod 10), digit_char (nat (Year t) mod 10)]"
    by (simp add: chars)
  have t5: "take 2 (drop 5 s) = [digit_char (Month t div 10), digit_char (Month t mod 10)]"
    by (simp add: chars)
  have t8: "take 2 (drop 8 s) = [digit_char (Day t div 10), digit_char (Day t mod 10)]"
    by (simp add: chars)
  have t11: "take 2 (drop 11 s) = [digit_char (Hour t div 10), digit_char (Hour t mod 10)]"
    by (simp add: chars)
  have t14: "take 2 (drop 14 s) = [digit_char (Minute t div 10), digit_char (Minute t mod 10)]"
    by (simp add: chars)
  have t17: "take 2 (drop 17 s) = [digit_char (Second t div 10), digit_char (Second t mod 10)]"
    by (simp add: chars)
  have seps: "s ! 4 = CHR ''-''" "s ! 7 = CHR ''-''" "s ! 10 = CHR ''T''" "s ! 13 = CHR '':''" "s ! 16 = CHR '':''"
    by (simp_all add: chars)
  have d19: "drop 19 s = format_zone (zoneOffset t)"
    by (simp add: chars)
  have y: "parseUint (take 4 s) 0 9999 = Some (nat (Year t))"
    unfolding t4 using assms by (intro parse_4_digits) (auto simp: representable_def)
  have mo: "parseUint (take 2 (drop 5 s)) (Suc 0) 12 = Some (Month t)"
    unfolding t5 using assms by (intro parse_2_digits) (simp_all add: representable_def)
  have d: "parseUint (take 2 (drop 8 s)) (Suc 0) (daysIn (Month t) (Year t)) = Some (Day t)"
    unfolding t8 using assms d31 by (intro parse_2_digits) (simp_all add: representable_def)
  have h: "parseUint (take 2 (drop 11 s)) 0 23 = Some (Hour t)"
    unfolding t11 using assms by (intro parse_2_digits) (simp_all add: representable_def)
  have mi: "parseUint (take 2 (drop 14 s)) 0 59 = Some (Minute t)"
    unfolding t14 using assms by (intro parse_2_digits) (simp_all add: representable_def)
  have sc: "parseUint (take 2 (drop 17 s)) 0 59 = Some (Second t)"
    unfolding t17 using assms by (intro parse_2_digits) (simp_all add: representable_def)
  have "time_Parse s = Some (t\<lparr>Nanosecond := 0\<rparr>)"
    unfolding time_Parse_def
    using parse_zone_format_zone [OF z] y0
    by (simp add: len y mo d h mi sc seps d19)
  then show ?thesis by (simp add: s_def)
qed


subsection \<open>CSV records\<close>

text \<open>The equations that run the reader on a given text.\<close>

lemmas reader_eval =
  csv_ReadAll_def readAll_loop.simps readRecord.simps parseField.simps quotedField.simps
  readLine_def normalizeCRLF_def lengthNL_def Let_def

lemma first_line_Cons: "c \<noteq> NL \<Longrightarrow> first_line (c # y) = c # first_line y"
  by (simp add: first_line_def)

lemma after_line_Cons: "c \<noteq> NL \<Longrightarrow> after_line (c # y) = after_line y"
  by (simp add: after_line_def)

lemma first_line_NL: "first_line (NL # y) = [NL]"
  by (simp add: first_line_def)

lemma after_line_NL: "after_line (NL # y) = y"
  by (simp add: after_line_def)

lemma first_line_append: "NL \<notin> set a \<Longrightarrow> first_line (a @ y) = a @ first_line y"
  by (induction a) (auto simp: first_line_def)

lemma after_line_append: "NL \<notin> set a \<Longrightarrow> after_line (a @ y) = after_line y"
  by (induction a) (auto simp: after_line_def)

lemma first_line_nonempty: "first_line y \<noteq> []"
  by (simp add: first_line_def)

lemma no_crlf_tl: "no_crlf (c # y) \<Longrightarrow> no_crlf y"
  by (cases y) simp_all

lemma no_crlf_suffix: "no_crlf (a @ y) \<Longrightarrow> no_crlf y"
  by (induction a) (auto dest: no_crlf_tl)

lemma no_crlf_before_NL: "no_crlf (a @ NL # z) \<Longrightarrow> a = [] \<or> last a \<noteq> CR"
proof (induction a)
  case Nil
  show ?case by simp
next
  case (Cons c a)
  show ?case
  proof (cases a)
    case Nil
    with Cons.prems show ?thesis by simp
  next
    case (Cons d a')
    with Cons.prems Cons.IH show ?thesis by simp
  qed
qed

lemma normalizeCRLF_id: "a = [] \<or> last a \<noteq> CR \<Longrightarrow> normalizeCRLF (a @ [NL]) = a @ [NL]"
proof (cases a rule: rev_cases)
  case Nil
  then show ?thesis by (simp add: normalizeCRLF_def)
next
  case (snoc b c)
  assume "a = [] \<or> last a \<noteq> CR"
  with snoc have "c \<noteq> CR" by simp
  then show ?thesis using snoc by (simp add: normalizeCRLF_def nth_append)
qed

lemma readLine_text:
  assumes "NL \<in> set y" "no_crlf y"
  shows "readLine (y @ tail) = (first_line y, after_line y @ tail)"
proof -
  from assms(1) obtain a z where y: "y = a @ NL # z" and a: "NL \<notin> set a"
    by (auto dest: split_list_first)
  have "a = [] \<or> last a \<noteq> CR"
    using assms(2) unfolding y by (rule no_crlf_before_NL)
  then have n: "normalizeCRLF (a @ [NL]) = a @ [NL]" by (rule normalizeCRLF_id)
  have "readLine (a @ NL # (z @ tail)) = (normalizeCRLF (a @ [NL]), z @ tail)"
    using a by (rule readLine_NL)
  then show ?thesis
    using a by (simp add: y n first_line_append after_line_append first_line_NL after_line_NL)
qed

text \<open>Single steps of the reader, on the line in hand.\<close>

lemma quotedField_char:
  assumes "c \<noteq> DQ" "line \<noteq> []"
  shows "quotedField (c # line) rest flds buf = quotedField line rest flds (buf @ [c])"
proof -
  have tw: "takeWhile (\<lambda>c. c \<noteq> DQ) (c # line) = c # takeWhile (\<lambda>c. c \<noteq> DQ) line"
    using assms(1) by simp
  have dw: "dropWhile (\<lambda>c. c \<noteq> DQ) (c # line) = dropWhile (\<lambda>c. c \<noteq> DQ) line"
    using assms(1) by simp
  have ne: "(c # line \<noteq> []) = True" "(line \<noteq> []) = True" using assms(2) by simp_all
  show ?thesis
    by (simp only: quotedField.simps [of "c # line" rest flds buf]
        quotedField.simps [of line rest flds "buf @ [c]"]
        Let_def tw dw ne if_True append_assoc append_Cons append_Nil)
qed

lemma quotedField_DQ_DQ:
  "quotedField (DQ # DQ # line) rest flds buf = quotedField line rest flds (buf @ [DQ])"
  by (subst quotedField.simps) (simp add: Let_def)

lemma quotedField_DQ_COMMA:
  "quotedField (DQ # COMMA # line) rest flds buf = parseField line rest (flds @ [buf])"
  by (subst quotedField.simps) (simp add: Let_def)

lemma quotedField_DQ_NL:
  "quotedField [DQ, NL] rest flds buf = Inr (flds @ [buf], rest)"
  by (subst quotedField.simps) (simp add: Let_def lengthNL_def)

lemma quotedField_NL:
  "quotedField [NL] rest flds buf
     = quotedField (fst (readLine rest)) (snd (readLine rest)) flds (buf @ [NL])"
  by (subst quotedField.simps) (simp add: Let_def)

lemma parseField_DQ:
  "parseField (DQ # line) rest flds = quotedField line rest flds []"
  by (subst parseField.simps) simp

lemma takeWhile_clean:
  "c \<notin> set f \<Longrightarrow> takeWhile (\<lambda>x. x \<noteq> c) (f @ c # y) = f"
  by (induction f) auto

lemma dropWhile_clean:
  "c \<notin> set f \<Longrightarrow> dropWhile (\<lambda>x. x \<noteq> c) (f @ c # y) = c # y"
  by (induction f) auto

lemma parseField_unquoted_COMMA:
  assumes "DQ \<notin> set f" "COMMA \<notin> set f"
  shows "parseField (f @ COMMA # line) rest flds = parseField line rest (flds @ [f])"
proof -
  have h: "hd (f @ COMMA # line) \<noteq> DQ" using assms(1) by (cases f) auto
  show ?thesis
    using assms h
    by (subst parseField.simps) (simp add: Let_def takeWhile_clean dropWhile_clean)
qed

lemma parseField_unquoted_NL:
  assumes "DQ \<notin> set f" "COMMA \<notin> set f"
  shows "parseField (f @ [NL]) rest flds = Inr (flds @ [f], rest)"
proof -
  have h: "hd (f @ [NL]) \<noteq> DQ" using assms(1) by (cases f) auto
  have t: "takeWhile (\<lambda>x. x \<noteq> COMMA) (f @ [NL]) = f @ [NL]"
    using assms(2) by (induction f) auto
  have d: "dropWhile (\<lambda>x. x \<noteq> COMMA) (f @ [NL]) = []"
    using assms(2) by (induction f) auto
  show ?thesis
    using assms h
    by (subst parseField.simps) (simp add: Let_def t d lengthNL_def)
qed

text \<open>Reading back the text of a quoted field, up to its closing quote.\<close>

lemma escape_Cons_text:
  "escape (c # f) @ y = (if c = DQ then DQ # DQ # (escape f @ y) else c # (escape f @ y))"
  by simp

lemma NL_in_append: "NL \<in> set y \<Longrightarrow> NL \<in> set (a @ y)"
  by simp

lemma quotedField_escape:
  assumes "NL \<in> set y" "no_crlf (escape f @ y)"
  shows "quotedField (first_line (escape f @ y)) (after_line (escape f @ y) @ tail) flds buf
           = quotedField (first_line y) (after_line y @ tail) flds (buf @ f)"
  using assms(2)
proof (induction f arbitrary: buf)
  case Nil
  show ?case by simp
next
  case (Cons c f)
  let ?Y = "escape f @ y"
  have nl: "NL \<in> set ?Y" using assms(1) by simp
  consider "c = DQ" | "c = NL" | "c \<noteq> DQ" "c \<noteq> NL" by blast
  then show ?case
  proof cases
    case 1
    have eq: "escape (c # f) @ y = DQ # DQ # ?Y" using 1 by simp
    have nc: "no_crlf ?Y"
      using Cons.prems unfolding eq by (auto dest: no_crlf_tl)
    have "quotedField (first_line (DQ # DQ # ?Y)) (after_line (DQ # DQ # ?Y) @ tail) flds buf
            = quotedField (first_line ?Y) (after_line ?Y @ tail) flds (buf @ [DQ])"
      by (simp add: first_line_Cons after_line_Cons quotedField_DQ_DQ)
    also have "\<dots> = quotedField (first_line y) (after_line y @ tail) flds ((buf @ [DQ]) @ f)"
      using nc by (rule Cons.IH)
    finally show ?thesis unfolding eq using 1 by simp
  next
    case 2
    have eq: "escape (c # f) @ y = NL # ?Y" using 2 by simp
    have nc: "no_crlf ?Y"
      using Cons.prems unfolding eq by (rule no_crlf_tl)
    have rl: "readLine (?Y @ tail) = (first_line ?Y, after_line ?Y @ tail)"
      using nl nc by (rule readLine_text)
    have "quotedField (first_line (NL # ?Y)) (after_line (NL # ?Y) @ tail) flds buf
            = quotedField (first_line ?Y) (after_line ?Y @ tail) flds (buf @ [NL])"
      by (simp only: first_line_NL after_line_NL quotedField_NL rl fst_conv snd_conv)
    also have "\<dots> = quotedField (first_line y) (after_line y @ tail) flds ((buf @ [NL]) @ f)"
      using nc by (rule Cons.IH)
    finally show ?thesis unfolding eq using 2 by simp
  next
    case 3
    have eq: "escape (c # f) @ y = c # ?Y" using 3 by simp
    have nc: "no_crlf ?Y"
      using Cons.prems unfolding eq by (rule no_crlf_tl)
    have "quotedField (first_line (c # ?Y)) (after_line (c # ?Y) @ tail) flds buf
            = quotedField (first_line ?Y) (after_line ?Y @ tail) flds (buf @ [c])"
      using 3 by (simp add: first_line_Cons after_line_Cons quotedField_char first_line_nonempty)
    also have "\<dots> = quotedField (first_line y) (after_line y @ tail) flds ((buf @ [c]) @ f)"
      using nc by (rule Cons.IH)
    finally show ?thesis unfolding eq by simp
  qed
qed

text \<open>What the writer leaves unquoted holds none of the special bytes.\<close>

lemma unquoted_clean:
  assumes "\<not> fieldNeedsQuotes f"
  shows "DQ \<notin> set f \<and> COMMA \<notin> set f \<and> NL \<notin> set f \<and> CR \<notin> set f"
proof (cases "f = []")
  case True
  then show ?thesis by simp
next
  case False
  with assms have "\<not> list_ex (\<lambda>c. c = NL \<or> c = CR \<or> c = DQ \<or> c = COMMA) f"
    by (simp add: fieldNeedsQuotes_def split: if_splits)
  then show ?thesis by (auto simp: list_ex_iff)
qed

lemma parse_written_fields:
  assumes "fs \<noteq> []" "no_crlf (write_fields fs @ [NL])"
  shows "parseField (first_line (write_fields fs @ [NL])) (after_line (write_fields fs @ [NL]) @ tail) flds
           = Inr (flds @ fs, tail)"
  using assms
proof (induction fs arbitrary: flds rule: write_fields.induct)
  case 1
  then show ?case by simp
next
  case (2 f)
  show ?case
  proof (cases "fieldNeedsQuotes f")
    case False
    then have cl: "DQ \<notin> set f" "COMMA \<notin> set f" "NL \<notin> set f"
      using unquoted_clean [of f] by simp_all
    have fl: "first_line (f @ [NL]) = f @ [NL]" "after_line (f @ [NL]) = []"
      using cl(3) by (simp_all add: first_line_append after_line_append first_line_NL after_line_NL)
    show ?thesis
      using False cl by (simp add: writeField_def fl parseField_unquoted_NL)
  next
    case True
    let ?y = "[DQ, NL]"
    have eq: "write_fields [f] @ [NL] = DQ # (escape f @ ?y)"
      using True by (simp add: writeField_def)
    have nc: "no_crlf (escape f @ ?y)"
      using "2.prems"(2) unfolding eq by (rule no_crlf_tl)
    have "parseField (first_line (DQ # (escape f @ ?y))) (after_line (DQ # (escape f @ ?y)) @ tail) flds
            = quotedField (first_line (escape f @ ?y)) (after_line (escape f @ ?y) @ tail) flds []"
      by (simp add: first_line_Cons after_line_Cons parseField_DQ)
    also have "\<dots> = quotedField (first_line ?y) (after_line ?y @ tail) flds ([] @ f)"
      using nc by (intro quotedField_escape) simp_all
    also have "\<dots> = Inr (flds @ [f], tail)"
      by (simp add: first_line_Cons first_line_NL after_line_Cons after_line_NL quotedField_DQ_NL)
    finally show ?thesis unfolding eq by simp
  qed
next
  case (3 f g gs)
  let ?y' = "write_fields (g # gs) @ [NL]"
  have nl': "NL \<in> set ?y'" by simp
  have IH: "\<And>flds. no_crlf ?y' \<Longrightarrow>
      parseField (first_line ?y') (after_line ?y' @ tail) flds = Inr (flds @ g # gs, tail)"
    using "3.IH" by simp
  show ?case
  proof (cases "fieldNeedsQuotes f")
    case False
    then have cl: "DQ \<notin> set f" "COMMA \<notin> set f" "NL \<notin> set f"
      using unquoted_clean [of f] by simp_all
    have eq: "write_fields (f # g # gs) @ [NL] = f @ COMMA # ?y'"
      using False by (simp add: writeField_def)
    have nc: "no_crlf ?y'"
      using "3.prems"(2) unfolding eq by (auto dest: no_crlf_suffix no_crlf_tl)
    have fl: "first_line (f @ COMMA # ?y') = f @ COMMA # first_line ?y'"
      "after_line (f @ COMMA # ?y') = after_line ?y'"
      using cl(3) by (simp_all add: first_line_append after_line_append first_line_Cons after_line_Cons)
    have "parseField (first_line (f @ COMMA # ?y')) (after_line (f @ COMMA # ?y') @ tail) flds
            = parseField (first_line ?y') (after_line ?y' @ tail) (flds @ [f])"
      by (simp only: fl parseField_unquoted_COMMA [OF cl(1,2)])
    also have "\<dots> = Inr ((flds @ [f]) @ g # gs, tail)"
      using nc by (rule IH)
    finally show ?thesis unfolding eq by simp
  next
    case True
    let ?y = "DQ # COMMA # ?y'"
    have eq: "write_fields (f # g # gs) @ [NL] = DQ # (escape f @ ?y)"
      using True by (simp add: writeField_def)
    have nc: "no_crlf (escape f @ ?y)"
      using "3.prems"(2) unfolding eq by (rule no_crlf_tl)
    then have nc': "no_crlf ?y'"
      by (auto dest: no_crlf_suffix no_crlf_tl)
    have "parseField (first_line (DQ # (escape f @ ?y))) (after_line (DQ # (escape f @ ?y)) @ tail) flds
            = quotedField (first_line (escape f @ ?y)) (after_line (escape f @ ?y) @ tail) flds []"
      by (simp add: first_line_Cons after_line_Cons parseField_DQ)
    also have "\<dots> = quotedField (first_line ?y) (after_line ?y @ tail) flds ([] @ f)"
      using nc by (intro quotedField_escape) simp_all
    also have "\<dots> = parseField (first_line ?y') (after_line ?y' @ tail) (flds @ [f])"
      by (simp add: first_line_Cons after_line_Cons quotedField_DQ_COMMA)
    also have "\<dots> = Inr ((flds @ [f]) @ g # gs, tail)"
      using nc' by (rule IH)
    finally show ?thesis unfolding eq by simp
  qed
qed

text \<open>The written text of a record has no carriage return before a line feed when no field has.\<close>

lemma no_crlf_Cons: "no_crlf (c # y) = (no_crlf y \<and> \<not> (c = CR \<and> y \<noteq> [] \<and> hd y = NL))"
  by (cases y) auto

lemma no_crlf_append:
  "no_crlf (xs @ ys) =
     (no_crlf xs \<and> no_crlf ys \<and> \<not> (xs \<noteq> [] \<and> ys \<noteq> [] \<and> last xs = CR \<and> hd ys = NL))"
proof (induction xs)
  case Nil
  show ?case by simp
next
  case (Cons c xs)
  show ?case
    by (cases "xs = []") (auto simp: no_crlf_Cons Cons.IH)
qed

lemma no_CR_no_crlf: "CR \<notin> set f \<Longrightarrow> no_crlf f"
  by (induction f) (auto simp: no_crlf_Cons)

lemma escape_Nil_iff: "(escape f = []) = (f = [])"
  by (cases f) simp_all

lemma hd_escape: "f \<noteq> [] \<Longrightarrow> hd (escape f) = hd f"
  by (cases f) simp_all

lemma last_escape: "f \<noteq> [] \<Longrightarrow> last (escape f) = last f"
  by (induction f) (auto simp: escape_Nil_iff)

lemma no_crlf_escape: "no_crlf f \<Longrightarrow> no_crlf (escape f)"
proof (induction f)
  case Nil
  show ?case by simp
next
  case (Cons c f)
  have t: "no_crlf f" using Cons.prems by (rule no_crlf_tl)
  have e: "escape (c # f) = (if c = DQ then [DQ, DQ] else [c]) @ escape f" by simp
  show ?case
    unfolding e using Cons.prems Cons.IH [OF t]
    by (cases f) (auto simp: no_crlf_append no_crlf_Cons escape_Nil_iff hd_escape)
qed

lemma writeField_shape:
  assumes "no_crlf f"
  shows "no_crlf (writeField f)
       \<and> (writeField f \<noteq> [] \<longrightarrow> last (writeField f) \<noteq> CR \<and> hd (writeField f) \<noteq> NL)"
proof (cases "fieldNeedsQuotes f")
  case True
  have "no_crlf (escape f @ [DQ])"
    using no_crlf_escape [OF assms] by (simp add: no_crlf_append)
  then have "no_crlf (DQ # escape f @ [DQ])" by (simp add: no_crlf_Cons)
  then show ?thesis using True by (simp add: writeField_def)
next
  case False
  then have cl: "NL \<notin> set f" "CR \<notin> set f" using unquoted_clean [of f] by simp_all
  have "f \<noteq> [] \<Longrightarrow> last f \<noteq> CR \<and> hd f \<noteq> NL"
    using cl by (metis hd_in_set last_in_set)
  then show ?thesis using False assms by (auto simp: writeField_def)
qed

lemma write_fields_shape:
  assumes "\<forall>f \<in> set fs. no_crlf f"
  shows "no_crlf (write_fields fs)
       \<and> (write_fields fs \<noteq> [] \<longrightarrow> last (write_fields fs) \<noteq> CR \<and> hd (write_fields fs) \<noteq> NL)"
  using assms
proof (induction fs rule: write_fields.induct)
  case 1
  show ?case by simp
next
  case (2 f)
  then show ?case using writeField_shape [of f] by simp
next
  case (3 f g gs)
  have w: "no_crlf (writeField f)"
    "writeField f \<noteq> [] \<longrightarrow> last (writeField f) \<noteq> CR \<and> hd (writeField f) \<noteq> NL"
    using "3.prems" writeField_shape [of f] by simp_all
  have r: "no_crlf (write_fields (g # gs))"
    "write_fields (g # gs) \<noteq> [] \<longrightarrow> last (write_fields (g # gs)) \<noteq> CR \<and> hd (write_fields (g # gs)) \<noteq> NL"
    using "3.prems" "3.IH" by simp_all
  have e: "write_fields (f # g # gs) = writeField f @ COMMA # write_fields (g # gs)" by simp
  have c: "no_crlf (COMMA # write_fields (g # gs))"
    using r by (simp add: no_crlf_Cons)
  have "no_crlf (writeField f @ COMMA # write_fields (g # gs))"
    using w c by (simp add: no_crlf_append)
  moreover have "last (writeField f @ COMMA # write_fields (g # gs)) \<noteq> CR"
    using r(2) by simp
  moreover have "hd (writeField f @ COMMA # write_fields (g # gs)) \<noteq> NL"
    using w(2) by (cases "writeField f") simp_all
  ultimately show ?case unfolding e by simp
qed

lemma no_crlf_csv_Write:
  assumes "\<forall>f \<in> set r. no_crlf f"
  shows "no_crlf (csv_Write r)"
  using write_fields_shape [OF assms] by (auto simp: csv_Write_def no_crlf_append)

text \<open>
  The reader gives back every written record whose text is not the empty line, and stands
  right after it, whatever follows.
\<close>

lemma readRecord_csv_Write:
  assumes "write_fields r \<noteq> []" "\<forall>f \<in> set r. no_crlf f"
  shows "readRecord (csv_Write r @ tail) = Some (Inr (r, tail))"
proof -
  let ?w = "write_fields r @ [NL]"
  have nc: "no_crlf ?w" using no_crlf_csv_Write [OF assms(2)] by (simp add: csv_Write_def)
  have rl: "readLine (?w @ tail) = (first_line ?w, after_line ?w @ tail)"
    using nc by (intro readLine_text) simp_all
  have hd: "hd (write_fields r) \<noteq> NL"
    using write_fields_shape [OF assms(2)] assms(1) by simp
  then have tw: "takeWhile (\<lambda>c. c \<noteq> NL) ?w \<noteq> []"
    using assms(1) by (cases "write_fields r") simp_all
  have len: "length (first_line ?w) \<noteq> lengthNL (first_line ?w)"
    using tw by (simp add: first_line_def lengthNL_def)
  have r: "r \<noteq> []" using assms(1) by auto
  have "readRecord (?w @ tail) = Some (parseField (first_line ?w) (after_line ?w @ tail) [])"
    by (subst readRecord.simps) (simp only: rl fst_conv snd_conv first_line_nonempty len if_False)
  also have "\<dots> = Some (Inr ([] @ r, tail))"
    by (simp only: parse_written_fields [OF r nc])
  finally show ?thesis by (simp add: csv_Write_def)
qed


subsection \<open>Whole files\<close>

lemma readRecord_Nil: "readRecord [] = None"
  by (subst readRecord.simps) (simp add: readLine_def normalizeCRLF_def)

lemma readAll_loop_Nil: "readAll_loop n [] = Inr []"
  by (subst readAll_loop.simps) (simp add: readRecord_Nil)

lemma readAll_loop_written:
  assumes "write_fields r \<noteq> []" "\<forall>f \<in> set r. no_crlf f" "n = 0 \<or> n = length r"
  shows "readAll_loop n (csv_Write r @ tail) =
           (case readAll_loop (length r) tail of Inl e \<Rightarrow> Inl e | Inr records \<Rightarrow> Inr (r # records))"
proof -
  have "r \<noteq> []" using assms(1) by auto
  then have "0 < length r" by simp
  then show ?thesis
    using assms(3)
    by (subst readAll_loop.simps) (auto simp: readRecord_csv_Write [OF assms(1,2)])
qed

text \<open>The records of tasks, as \<open>saveTasks\<close> writes them.\<close>

lemma nat_digits_chars: "c \<in> set (nat_digits n) \<Longrightarrow> is_digit c"
  using nat_digits_all_digits [of n] by (simp add: list_all_iff)

lemma is_digit_plain: "is_digit c \<Longrightarrow> c \<noteq> CR \<and> c \<noteq> NL \<and> c \<noteq> DQ \<and> c \<noteq> COMMA"
  by (auto simp: is_digit_def)

lemma Itoa_no_CR: "CR \<notin> set (Itoa i)"
  using is_digit_plain nat_digits_chars by (auto simp: Itoa_def)

lemma appendInt_no_CR: "CR \<notin> set (appendInt x w)"
  using is_digit_plain nat_digits_chars by (auto simp: appendInt_def Let_def)

lemma format_zone_no_CR: "CR \<notin> set (format_zone off)"
  using appendInt_no_CR by (auto simp: format_zone_def Let_def)

lemma time_Format_no_CR: "CR \<notin> set (time_Format t)"
  using appendInt_no_CR format_zone_no_CR by (auto simp: time_Format_def)

lemma FormatBool_no_CR: "CR \<notin> set (FormatBool b)"
  by (cases b) (simp_all add: FormatBool_def)

lemma encode_record_fields:
  "no_crlf (Description task) \<Longrightarrow> \<forall>f \<in> set (encode_record task). no_crlf f"
  by (simp add: encode_record_def no_CR_no_crlf Itoa_no_CR time_Format_no_CR FormatBool_no_CR)

lemma write_fields_encode_nonempty: "write_fields (encode_record task) \<noteq> []"
  by (simp add: encode_record_def)

lemma header_fields: "\<forall>f \<in> set header. no_crlf f" "write_fields header \<noteq> []" "length header = 4"
  by (simp_all add: header_def)

lemma readAll_loop_write_tasks:
  assumes "\<forall>task \<in> set tasks. no_crlf (Description task)"
  shows "readAll_loop 4 (write_tasks tasks @ tail) =
           (case readAll_loop 4 tail of
              Inl e \<Rightarrow> Inl e
            | Inr records \<Rightarrow> Inr (map encode_record tasks @ records))"
  using assms
proof (induction tasks)
  case Nil
  show ?case by (simp split: sum.splits)
next
  case (Cons t ts)
  have len: "length (encode_record t) = 4" by (simp add: encode_record_def)
  have f: "\<forall>f \<in> set (encode_record t). no_crlf f"
    using Cons.prems by (intro encode_record_fields) simp
  have "readAll_loop 4 (csv_Write (encode_record t) @ (write_tasks ts @ tail)) =
          (case readAll_loop 4 (write_tasks ts @ tail) of
             Inl e \<Rightarrow> Inl e | Inr records \<Rightarrow> Inr (encode_record t # records))"
    using readAll_loop_written [OF write_fields_encode_nonempty f, of 4 "write_tasks ts @ tail"]
    by (simp add: len)
  then show ?case
    using Cons.IH Cons.prems by (simp split: sum.splits)
qed

lemma csv_ReadAll_csv_output:
  assumes "\<forall>task \<in> set tasks. no_crlf (Description task)"
  shows "csv_ReadAll (csv_output tasks @ tail) =
           (case readAll_loop 4 tail of
              Inl e \<Rightarrow> Inl e
            | Inr records \<Rightarrow> Inr (header # map encode_record tasks @ records))"
proof -
  have "readAll_loop 0 (csv_Write header @ (write_tasks tasks @ tail)) =
          (case readAll_loop 4 (write_tasks tasks @ tail) of
             Inl e \<Rightarrow> Inl e | Inr records \<Rightarrow> Inr (header # records))"
    using readAll_loop_written [OF header_fields(2) header_fields(1), of 0 "write_tasks tasks @ tail"]
    by (simp add: header_fields(3))
  then show ?thesis
    by (simp add: csv_ReadAll_def csv_output_def readAll_loop_write_tasks [OF assms] split: sum.splits)
qed


subsection \<open>Tasks\<close>

lemma decode_encode_record:
  assumes "minInt \<le> ID task" "ID task \<le> maxInt" "representable (CreatedAt task)"
  shows "decode_record (encode_record task) = Inr (stored task)"
  using assms
  by (simp add: decode_record_def encode_record_def stored_def Atoi_Itoa time_Parse_Format
      ParseBool_FormatBool)

lemma stored_fixed: "Nanosecond (CreatedAt task) = 0 \<Longrightarrow> stored task = task"
  by (simp add: stored_def)

lemma stored_stored: "stored (stored task) = stored task"
  by (simp add: stored_def)

lemma time_Format_Nanosecond: "time_Format (t\<lparr>Nanosecond := n\<rparr>) = time_Format t"
  by (simp add: time_Format_def)

lemma encode_record_stored: "encode_record (stored task) = encode_record task"
  by (simp add: encode_record_def stored_def time_Format_Nanosecond)

lemma representable_Nanosecond: "representable (t\<lparr>Nanosecond := n\<rparr>) = representable t"
  by (simp add: representable_def)

lemma valid_task_stored: "valid_task (stored task) = valid_task task"
  by (simp add: valid_task_def stored_def representable_Nanosecond)

lemma write_tasks_stored: "write_tasks (map stored tasks) = write_tasks tasks"
  by (induction tasks) (simp_all add: encode_record_stored)

lemma csv_output_stored: "csv_output (map stored tasks) = csv_output tasks"
  by (simp add: csv_output_def write_tasks_stored)

lemma decode_loop_encoded:
  assumes "\<forall>task \<in> set tasks. valid_task task"
  shows "decode_loop acc (map encode_record tasks @ records)
           = decode_loop (acc @ map stored tasks) records"
  using assms
proof (induction tasks arbitrary: acc)
  case Nil
  show ?case by simp
next
  case (Cons t ts)
  have "decode_record (encode_record t) = Inr (stored t)"
    using Cons.prems by (intro decode_encode_record) (simp_all add: valid_task_def)
  then show ?case using Cons.IH [of "acc @ [stored t]"] Cons.prems by simp
qed

lemma fs_content_same: "content s = Some c \<Longrightarrow> s\<lparr>content := Some c\<rparr> = s"
  by (cases s) simp

lemma file_bytes_Some: "content s = Some c \<Longrightarrow> file_bytes s = c"
  by (simp add: file_bytes_def)

text \<open>
  Loading a file that begins with the text of a valid task list: the tasks come back,
  followed by whatever the rest of the file decodes to.
\<close>

lemma loadTasks_csv_output:
  assumes "openable s" "lockable s" "content s = Some (csv_output tasks @ tail)"
    and "\<forall>task \<in> set tasks. valid_task task"
  shows "loadTasks s =
           (case readAll_loop 4 tail of
              Inl e \<Rightarrow> Inl (ErrReadCSV e)
            | Inr records \<Rightarrow> decode_loop (map stored tasks) records, s)"
proof -
  have d: "\<forall>task \<in> set tasks. no_crlf (Description task)"
    using assms(4) by (simp add: valid_task_def)
  have lf: "loadFile s = (Inr (csv_output tasks @ tail), s)"
    using assms(1-3) by (simp add: loadFile_ok file_bytes_Some fs_content_same)
  show ?thesis
    using decode_loop_encoded [OF assms(4), of "[]"]
    by (simp add: loadTasks_def lf csv_ReadAll_csv_output [OF d] split: sum.splits)
qed

lemma loadTasks_saved:
  assumes "openable s" "lockable s" "content s = Some (csv_output tasks)"
    and "\<forall>task \<in> set tasks. valid_task task"
  shows "loadTasks s = (Inr (map stored tasks), s)"
  using loadTasks_csv_output [of s tasks "[]"] assms by (simp add: readAll_loop_Nil)


section \<open>Examples\<close>

lemma ex_time_representable: "representable ex_time"
  by (simp add: representable_def ex_time_def daysIn_def)

lemma ex_task_valid:
  "minInt \<le> i \<Longrightarrow> i \<le> maxInt \<Longrightarrow> no_crlf d \<Longrightarrow> valid_task (ex_task i d c)"
  by (simp add: valid_task_def ex_task_def ex_time_representable)

lemma ex_task_stored: "stored (ex_task i d c) = ex_task i d c"
  by (simp add: stored_def ex_task_def ex_time_def)

lemma ex_store_simps:
  "openable (ex_store bytes)" "lockable (ex_store bytes)" "content (ex_store bytes) = Some bytes"
  "file_bytes (ex_store bytes) = bytes"
  by (simp_all add: ex_store_def file_bytes_def)

lemma ex_small_ints: "minInt \<le> 1" "1 \<le> maxInt" "minInt \<le> 7" "7 \<le> maxInt"
  by (simp_all add: minInt_def maxInt_def)

lemma ex_Itoa: "Itoa 0 = ''0''" "Itoa 1 = ''1''" "Itoa 2 = ''2''" "Itoa 3 = ''3''"
  by code_simp+

lemma ex_unquoted:
  "\<not> fieldNeedsQuotes ''0''" "\<not> fieldNeedsQuotes ''1''" "\<not> fieldNeedsQuotes ''2''"
  "\<not> fieldNeedsQuotes ''a''" "\<not> fieldNeedsQuotes ''b''" "\<not> fieldNeedsQuotes ''bb''"
  by (simp_all add: fieldNeedsQuotes_def first_rune_is_space_def)

lemma ex_atoi: "Atoi ''1'' = (1, None)" "Atoi ''2'' = (2, None)" "Atoi [] = (0, Some ErrSyntax)"
  by code_simp+

lemma ex_dup_load:
  "loadTasks ex_dup = (Inr ([ex_task 1 ''a'' False] @ ex_task 7 ''b'' True # [ex_task 7 ''c'' False]), ex_dup)"
proof -
  have v: "\<forall>task \<in> set [ex_task 1 ''a'' False, ex_task 7 ''b'' True, ex_task 7 ''c'' False]. valid_task task"
    by (simp add: ex_task_valid ex_small_ints)
  have "loadTasks ex_dup =
      (Inr (map stored [ex_task 1 ''a'' False, ex_task 7 ''b'' True, ex_task 7 ''c'' False]), ex_dup)"
    by (rule loadTasks_saved [OF _ _ _ v]) (simp_all add: ex_dup_def ex_store_simps)
  then show ?thesis by (simp add: ex_task_stored)
qed


section \<open>Claims\<close>




text \<open>
  C8. For a loaded task list, \<open>listCmd\<close> without the flag writes the header line and one
  row for each task that is not completed, in file order, and no row for a completed task;
  with the flag it writes the header line and one row for every task.
\<close>

theorem list_filters_completed:
  assumes "loadTasks s = (Inr tasks, s1)"
  shows "listCmd timeDiff False s =
           (Inr (header_row False # map (task_row timeDiff False) (filter (\<lambda>t. \<not> IsCompleted t) tasks)), s1)
       \<and> listCmd timeDiff True s =
           (Inr (header_row True # map (task_row timeDiff True) tasks), s1)"
  using assms by (simp add: listCmd_def list_loop_rows)

theorem list_filters_completed_witness:
  "listCmd (\<lambda>t. ''now'') False ex_dup =
     (Inr (header_row False # map (task_row (\<lambda>t. ''now'') False)
        (filter (\<lambda>t. \<not> IsCompleted t) ([ex_task 1 ''a'' False] @ ex_task 7 ''b'' True # [ex_task 7 ''c'' False]))), ex_dup)
   \<and> listCmd (\<lambda>t. ''now'') True ex_dup =
     (Inr (header_row True # map (task_row (\<lambda>t. ''now'') True)
        ([ex_task 1 ''a'' False] @ ex_task 7 ''b'' True # [ex_task 7 ''c'' False])), ex_dup)"
  by (rule list_filters_completed [OF ex_dup_load])


section \<open>Commands on a store\<close>

lemma write_at_start_longer: "length old \<le> length new \<Longrightarrow> write_at_start new old = new"
  by (simp add: write_at_start_def)

lemma write_at_start_same_length:
  "length new = length a \<Longrightarrow> write_at_start new (a @ b) = new @ b"
  by (simp add: write_at_start_def)

lemma write_tasks_append: "write_tasks (ts @ us) = write_tasks ts @ write_tasks us"
  by (induction ts) simp_all

lemma csv_output_append: "csv_output (ts @ us) = csv_output ts @ write_tasks us"
  by (simp add: csv_output_def write_tasks_append)

lemma maxID_loop_stored: "maxID_loop m (map stored tasks) = maxID_loop m tasks"
  by (induction tasks arbitrary: m) (simp_all add: stored_def)

lemma getNextID_stored: "getNextID (map stored tasks) = getNextID tasks"
  by (simp add: getNextID_def maxID_loop_stored)

lemma maxID_loop_append: "maxID_loop m (ts @ us) = maxID_loop (maxID_loop m ts) us"
  by (induction ts arbitrary: m) simp_all

lemma readAll_loop_empty_file: "csv_ReadAll [] = Inr []"
  by (simp add: csv_ReadAll_def readAll_loop_Nil)

text \<open>A store whose file is missing or empty holds no task.\<close>

lemma loadTasks_empty:
  assumes "openable s" "lockable s" "file_bytes s = []"
  shows "loadTasks s = (Inr [], s\<lparr>content := Some []\<rparr>)"
  using assms by (simp add: loadTasks_def loadFile_ok readAll_loop_empty_file)

lemma addCmd_empty:
  assumes "openable s" "lockable s" "file_bytes s = []"
  shows "addCmd d now s =
     (Inr (''Added tasks '' @ Itoa 1 @ '': '' @ d @ [NL]),
      s\<lparr>content := Some (csv_output [\<lparr>ID = 1, Description = d, CreatedAt = now, IsCompleted = False\<rparr>])\<rparr>)"
proof -
  have g: "getNextID [] = 1" by (simp add: getNextID_def wrap64_def)
  have sv: "\<And>ts. saveTasks ts (s\<lparr>content := Some []\<rparr>)
      = (None, s\<lparr>content := Some (csv_output ts)\<rparr>)"
    using assms(1,2) by (simp add: saveTasks_ok file_bytes_def write_at_start_def)
  show ?thesis
    by (simp add: addCmd_def loadTasks_empty [OF assms] g sv)
qed

text \<open>
  \<open>addCmd\<close> on a file that holds exactly the text of a valid task list: the file becomes
  the text of the list with the new task at its end.
\<close>

lemma addCmd_saved:
  assumes "openable s" "lockable s" "content s = Some (csv_output tasks)"
    and "\<forall>task \<in> set tasks. valid_task task"
  shows "addCmd d now s =
     (Inr (''Added tasks '' @ Itoa (getNextID tasks) @ '': '' @ d @ [NL]),
      s\<lparr>content := Some (csv_output
        (tasks @ [\<lparr>ID = getNextID tasks, Description = d, CreatedAt = now, IsCompleted = False\<rparr>]))\<rparr>)"
proof -
  let ?new = "\<lparr>ID = getNextID tasks, Description = d, CreatedAt = now, IsCompleted = False\<rparr>"
  have ld: "loadTasks s = (Inr (map stored tasks), s)"
    using assms by (rule loadTasks_saved)
  have out: "csv_output (map stored tasks @ [?new]) = csv_output tasks @ write_tasks [?new]"
    by (simp only: csv_output_append csv_output_stored)
  have "write_at_start (csv_output (map stored tasks @ [?new])) (file_bytes s)
      = csv_output (tasks @ [?new])"
    unfolding out using assms(3)
    by (simp add: file_bytes_Some write_at_start_longer csv_output_append)
  then have sv: "saveTasks (map stored tasks @ [?new]) s
      = (None, s\<lparr>content := Some (csv_output (tasks @ [?new]))\<rparr>)"
    using assms(1,2) by (simp add: saveTasks_ok)
  show ?thesis
    by (simp add: addCmd_def ld getNextID_stored sv)
qed


lemma length_added_tasks: "length (added_tasks k adds) = length adds"
  by (induction k adds rule: added_tasks.induct) simp_all

lemma maxID_loop_added_tasks:
  "maxID_loop m (added_tasks (m + 1) adds) = m + int (length adds)"
proof (induction adds arbitrary: m)
  case Nil
  show ?case by simp
next
  case (Cons a adds)
  obtain d now where a: "a = (d, now)" by (cases a)
  show ?case using Cons.IH [of "m + 1"] by (simp add: a)
qed

lemma added_tasks_valid:
  assumes "\<forall>(d, now) \<in> set adds. no_crlf d \<and> representable now"
    and "minInt \<le> k" "k + int (length adds) \<le> maxInt + 1"
  shows "\<forall>task \<in> set (added_tasks k adds). valid_task task"
  using assms
proof (induction k adds rule: added_tasks.induct)
  case (1 k)
  show ?case by simp
next
  case (2 k d now adds)
  have "\<forall>task \<in> set (added_tasks (k + 1) adds). valid_task task"
    using "2.prems" by (intro "2.IH") auto
  moreover have "valid_task \<lparr>ID = k, Description = d, CreatedAt = now, IsCompleted = False\<rparr>"
    using "2.prems" by (simp add: valid_task_def)
  ultimately show ?case by simp
qed

lemma run_all_adds_saved:
  assumes "openable s" "lockable s" "content s = Some (csv_output tasks)"
    and "\<forall>task \<in> set tasks. valid_task task"
    and "maxID_loop 0 tasks = k" "0 \<le> k"
    and "\<forall>(d, now) \<in> set adds. no_crlf d \<and> representable now"
    and "k + int (length adds) \<le> maxInt"
  shows "run_all (add_commands adds) s
           = s\<lparr>content := Some (csv_output (tasks @ added_tasks (k + 1) adds))\<rparr>"
  using assms
proof (induction adds arbitrary: s tasks k)
  case Nil
  then show ?case by (simp add: add_commands_def fs_content_same)
next
  case (Cons a adds)
  obtain d now where a: "a = (d, now)" by (cases a)
  let ?new = "\<lparr>ID = k + 1, Description = d, CreatedAt = now, IsCompleted = False\<rparr>"
  let ?s' = "s\<lparr>content := Some (csv_output (tasks @ [?new]))\<rparr>"
  have k1: "k + 1 \<le> maxInt" using Cons.prems(8) by simp
  have g: "getNextID tasks = k + 1"
    using Cons.prems(5,6) k1 by (simp add: getNextID_def wrap64_id minInt_def)
  have step: "addCmd d now s = (Inr (''Added tasks '' @ Itoa (k + 1) @ '': '' @ d @ [NL]), ?s')"
    using addCmd_saved [OF Cons.prems(1-4), of d now] by (simp add: g)
  have v: "\<forall>task \<in> set (tasks @ [?new]). valid_task task"
    using Cons.prems(4,6,7) k1 by (simp add: a valid_task_def minInt_def)
  have m: "maxID_loop 0 (tasks @ [?new]) = k + 1"
    using Cons.prems(5) by (simp add: maxID_loop_append)
  have "run_all (add_commands adds) ?s'
      = ?s'\<lparr>content := Some (csv_output ((tasks @ [?new]) @ added_tasks (k + 1 + 1) adds))\<rparr>"
    using Cons.prems(1,2,6,7,8) v m by (intro Cons.IH) simp_all
  then show ?case
    by (simp add: add_commands_def a step)
qed

lemma run_all_adds_empty:
  assumes "openable s" "lockable s" "file_bytes s = []"
    and "\<forall>(d, now) \<in> set adds. no_crlf d \<and> representable now"
    and "int (length adds) \<le> maxInt" "adds \<noteq> []"
  shows "run_all (add_commands adds) s = s\<lparr>content := Some (csv_output (added_tasks 1 adds))\<rparr>"
proof -
  obtain d now adds' where adds: "adds = (d, now) # adds'"
    using assms(6) by (cases adds) auto
  let ?new = "\<lparr>ID = 1, Description = d, CreatedAt = now, IsCompleted = False\<rparr>"
  let ?s' = "s\<lparr>content := Some (csv_output [?new])\<rparr>"
  have step: "addCmd d now s = (Inr (''Added tasks '' @ Itoa 1 @ '': '' @ d @ [NL]), ?s')"
    using assms(1-3) by (rule addCmd_empty)
  have v: "\<forall>task \<in> set [?new]. valid_task task"
    using assms(4) by (simp add: adds valid_task_def minInt_def maxInt_def)
  have "run_all (add_commands adds') ?s'
      = ?s'\<lparr>content := Some (csv_output ([?new] @ added_tasks (1 + 1) adds'))\<rparr>"
    using assms(1,2,4,5) v by (intro run_all_adds_saved) (simp_all add: adds)
  then show ?thesis
    by (simp add: add_commands_def adds step)
qed


lemma getNextID_Max:
  assumes "ts \<noteq> []" "\<forall>t \<in> set ts. 0 < ID t \<and> ID t < maxInt"
  shows "getNextID ts = 1 + Max (ID ` set ts)"
proof -
  have fin: "finite (ID ` set ts)" "ID ` set ts \<noteq> {}" using assms(1) by simp_all
  then have "Max (ID ` set ts) \<in> ID ` set ts" by (rule Max_in)
  then have b: "0 < Max (ID ` set ts)" "Max (ID ` set ts) < maxInt" using assms(2) by auto
  have "maxID_loop 0 ts = max 0 (Max (ID ` set ts))"
    using fin by (simp add: maxID_loop_Max)
  then have "maxID_loop 0 ts = Max (ID ` set ts)" using b(1) by simp
  then show ?thesis
    using b by (simp add: getNextID_def wrap64_id minInt_def)
qed

text \<open>
  C6. Starting from an empty store (the file is missing or empty), after \<open>N\<close> adds and
  no other command the store loads as the \<open>N\<close> added tasks numbered 1 to \<open>N\<close>, and
  \<open>getNextID\<close> of that list is \<open>N + 1\<close>. The descriptions are texts without a carriage
  return before a line feed, the timestamps are ones the layout can carry, and \<open>N\<close> is
  below the largest \<open>int\<close>. \<open>getNextID\<close> is a function of the list alone: 1 for the empty
  list, and one more than the largest ID for a non-empty list of tasks with positive IDs
  below the largest \<open>int\<close>.
\<close>

theorem nextID_after_adds:
  assumes "openable s" "lockable s" "file_bytes s = []"
    and "\<forall>(d, now) \<in> set adds. no_crlf d \<and> representable now"
    and "int (length adds) < maxInt"
    and "ts \<noteq> []" "\<forall>t \<in> set ts. 0 < ID t \<and> ID t < maxInt"
  shows "fst (loadTasks (run_all (add_commands adds) s)) = Inr (map stored (added_tasks 1 adds))
       \<and> length (added_tasks 1 adds) = length adds
       \<and> getNextID (map stored (added_tasks 1 adds)) = int (length adds) + 1
       \<and> getNextID [] = 1
       \<and> getNextID ts = 1 + Max (ID ` set ts)"
proof -
  have ld: "fst (loadTasks (run_all (add_commands adds) s)) = Inr (map stored (added_tasks 1 adds))"
  proof (cases "adds = []")
    case True
    then show ?thesis
      using loadTasks_empty [OF assms(1-3)] by (simp add: add_commands_def)
  next
    case False
    let ?s' = "s\<lparr>content := Some (csv_output (added_tasks 1 adds))\<rparr>"
    have r: "run_all (add_commands adds) s = ?s'"
      using assms(1-5) False by (intro run_all_adds_empty) simp_all
    have v: "\<forall>task \<in> set (added_tasks 1 adds). valid_task task"
      using assms(4,5) by (intro added_tasks_valid) (simp_all add: minInt_def)
    have "loadTasks ?s' = (Inr (map stored (added_tasks 1 adds)), ?s')"
      using assms(1,2) v by (intro loadTasks_saved) simp_all
    then show ?thesis by (simp add: r)
  qed
  have "maxID_loop 0 (added_tasks (0 + 1) adds) = 0 + int (length adds)"
    by (rule maxID_loop_added_tasks)
  then have g: "getNextID (map stored (added_tasks 1 adds)) = int (length adds) + 1"
    using assms(5) by (simp add: getNextID_def maxID_loop_stored wrap64_id minInt_def)
  have e: "getNextID [] = 1" by (simp add: getNextID_def wrap64_def)
  show ?thesis
    using ld g e getNextID_Max [OF assms(6,7)] by (simp add: length_added_tasks)
qed

lemma ex_new_simps: "openable ex_new" "lockable ex_new" "file_bytes ex_new = []"
  by (simp_all add: ex_new_def file_bytes_def)

theorem nextID_after_adds_witness:
  "fst (loadTasks (run_all (add_commands [(''buy milk'', ex_time), (''walk dog'', ex_time)]) ex_new))
     = Inr (map stored (added_tasks 1 [(''buy milk'', ex_time), (''walk dog'', ex_time)]))
   \<and> length (added_tasks 1 [(''buy milk'', ex_time), (''walk dog'', ex_time)])
     = length [(''buy milk'', ex_time), (''walk dog'', ex_time)]
   \<and> getNextID (map stored (added_tasks 1 [(''buy milk'', ex_time), (''walk dog'', ex_time)]))
     = int (length [(''buy milk'', ex_time), (''walk dog'', ex_time)]) + 1
   \<and> getNextID [] = 1
   \<and> getNextID [ex_task 1 ''a'' False, ex_task 7 ''b'' True]
     = 1 + Max (ID ` set [ex_task 1 ''a'' False, ex_task 7 ''b'' True])"
proof -
  have a: "\<forall>(d, now) \<in> set [(''buy milk'', ex_time), (''walk dog'', ex_time)]. no_crlf d \<and> representable now"
    by (simp add: ex_time_representable)
  have n: "int (length [(''buy milk'', ex_time), (''walk dog'', ex_time)]) < maxInt"
    by (simp add: maxInt_def)
  have t: "[ex_task 1 ''a'' False, ex_task 7 ''b'' True] \<noteq> []" by simp
  have b: "\<forall>t \<in> set [ex_task 1 ''a'' False, ex_task 7 ''b'' True]. 0 < ID t \<and> ID t < maxInt"
    by (simp add: ex_task_def maxInt_def)
  show ?thesis
    by (rule nextID_after_adds [OF ex_new_simps a n t b])
qed


lemma ex_time_text: "time_Format ex_time = ''2024-01-02T03:04:05+05:30''"
  by code_simp

lemma ex_crlf_line:
  "csv_Write (encode_record (ex_task 1 [CHR ''x'', CR, NL, CHR ''y''] False))
     = ''1,'' @ [DQ, CHR ''x'', CR, NL, CHR ''y'', DQ] @ '',2024-01-02T03:04:05+05:30,false'' @ [NL]"
  by (simp add: csv_Write_def encode_record_def ex_task_def writeField_def fieldNeedsQuotes_def
      first_rune_is_space_def ex_Itoa ex_time_text FormatBool_def)

lemma ex_crlf_read:
  "readRecord (''1,'' @ [DQ, CHR ''x'', CR, NL, CHR ''y'', DQ] @ '',2024-01-02T03:04:05+05:30,false'' @ [NL])
     = Some (Inr ([''1'', [CHR ''x'', NL, CHR ''y''], ''2024-01-02T03:04:05+05:30'', ''false''], []))"
  by (simp add: reader_eval)

text \<open>
  C2 as the claim states it fails: \<open>Format\<close> with the RFC3339 layout prints whole
  seconds, so a timestamp with a fraction of a second does not come back. The first task
  below has the ID 1, the description \<open>a\<close> and a timestamp one nanosecond after the full
  second. The second task has a description with a carriage return before a line feed;
  the writer quotes it and writes both bytes, and the reader hands the quoted field on
  without the carriage return: the line reads back as the record of another task.
\<close>

theorem record_round_trip_counterexample:
  "decode_record (encode_record ((ex_task 1 ''a'' False)\<lparr>CreatedAt := ex_time\<lparr>Nanosecond := 1\<rparr>\<rparr>))
     = Inr (ex_task 1 ''a'' False)
   \<and> ex_task 1 ''a'' False \<noteq> (ex_task 1 ''a'' False)\<lparr>CreatedAt := ex_time\<lparr>Nanosecond := 1\<rparr>\<rparr>
   \<and> readRecord (csv_Write (encode_record (ex_task 1 [CHR ''x'', CR, NL, CHR ''y''] False)))
     = Some (Inr (encode_record (ex_task 1 [CHR ''x'', NL, CHR ''y''] False), []))
   \<and> encode_record (ex_task 1 [CHR ''x'', NL, CHR ''y''] False)
     \<noteq> encode_record (ex_task 1 [CHR ''x'', CR, NL, CHR ''y''] False)"
proof -
  have e: "encode_record (ex_task 1 [CHR ''x'', NL, CHR ''y''] False)
      = [''1'', [CHR ''x'', NL, CHR ''y''], ''2024-01-02T03:04:05+05:30'', ''false'']"
    by (simp add: encode_record_def ex_task_def ex_Itoa ex_time_text FormatBool_def)
  have c: "readRecord (csv_Write (encode_record (ex_task 1 [CHR ''x'', CR, NL, CHR ''y''] False)))
      = Some (Inr (encode_record (ex_task 1 [CHR ''x'', NL, CHR ''y''] False), []))"
    unfolding ex_crlf_line ex_crlf_read e by (rule refl)
  have d: "encode_record (ex_task 1 [CHR ''x'', NL, CHR ''y''] False)
      \<noteq> encode_record (ex_task 1 [CHR ''x'', CR, NL, CHR ''y''] False)"
    by (simp add: encode_record_def ex_task_def)
  let ?t = "(ex_task 1 ''a'' False)\<lparr>CreatedAt := ex_time\<lparr>Nanosecond := 1\<rparr>\<rparr>"
  have r: "representable (CreatedAt ?t)"
    using ex_time_representable by (simp add: representable_Nanosecond)
  have "decode_record (encode_record ?t) = Inr (stored ?t)"
    using r by (intro decode_encode_record) (simp_all add: ex_task_def ex_small_ints)
  moreover have "stored ?t = ex_task 1 ''a'' False"
    by (simp add: stored_def ex_task_def ex_time_def)
  moreover have "ex_task 1 ''a'' False \<noteq> ?t"
    by (simp add: ex_task_def ex_time_def)
  ultimately show ?thesis using c d by simp
qed

text \<open>
  C2, amended. For every task whose ID is a 64-bit integer, whose description has no
  carriage return directly before a line feed, and whose timestamp is one the layout can
  carry and has no fraction of a second: the line the writer produces for the encoded
  record reads back as that record, whatever bytes follow the line, and decoding the
  record gives the task itself. The description may hold the field delimiter, quotes and
  line feeds.
\<close>

theorem record_round_trip:
  assumes "valid_task task" "Nanosecond (CreatedAt task) = 0"
  shows "readRecord (csv_Write (encode_record task) @ tail) = Some (Inr (encode_record task, tail))
       \<and> decode_record (encode_record task) = Inr task"
proof -
  have f: "\<forall>f \<in> set (encode_record task). no_crlf f"
    using assms(1) by (intro encode_record_fields) (simp add: valid_task_def)
  have "readRecord (csv_Write (encode_record task) @ tail) = Some (Inr (encode_record task, tail))"
    using write_fields_encode_nonempty f by (rule readRecord_csv_Write)
  moreover have "decode_record (encode_record task) = Inr (stored task)"
    using assms(1) by (intro decode_encode_record) (simp_all add: valid_task_def)
  ultimately show ?thesis using assms(2) by (simp add: stored_fixed)
qed

theorem record_round_trip_witness:
  "readRecord (csv_Write (encode_record (ex_task 1 ''a,b'' False)) @ ''x'')
     = Some (Inr (encode_record (ex_task 1 ''a,b'' False), ''x''))
   \<and> decode_record (encode_record (ex_task 1 ''a,b'' False)) = Inr (ex_task 1 ''a,b'' False)"
proof -
  have v: "valid_task (ex_task 1 ''a,b'' False)"
    by (simp add: ex_task_valid ex_small_ints)
  have n: "Nanosecond (CreatedAt (ex_task 1 ''a,b'' False)) = 0"
    by (simp add: ex_task_def ex_time_def)
  show ?thesis by (rule record_round_trip [OF v n])
qed


text \<open>
  What holds of a save and of a search without a match. A save over a file that is not
  longer than the new text, then a load, gives the saved tasks back in their order. On a
  store with at least one task, \<open>completeCmd\<close> and \<open>deleteCmd\<close> with an ID that no task
  has return the not-found error and leave the bytes of the file as they are.
\<close>

lemma save_then_load:
  assumes "openable s" "lockable s" "length (file_bytes s) \<le> length (csv_output tasks)"
    and "\<forall>task \<in> set tasks. valid_task task"
  shows "fst (saveTasks tasks s) = None
       \<and> fst (loadTasks (snd (saveTasks tasks s))) = Inr (map stored tasks)"
proof -
  let ?s' = "s\<lparr>content := Some (csv_output tasks)\<rparr>"
  have sv: "saveTasks tasks s = (None, ?s')"
    using assms(1,2) write_at_start_longer [OF assms(3)] by (simp add: saveTasks_ok)
  have "loadTasks ?s' = (Inr (map stored tasks), ?s')"
    using assms(1,2,4) by (intro loadTasks_saved) simp_all
  then show ?thesis by (simp add: sv)
qed

lemma not_found_on_store:
  assumes "Atoi arg = (tid, None)" "loadTasks s = (Inr tasks, s1)" "tasks \<noteq> []"
    and "tid \<notin> ID ` set tasks"
  shows "completeCmd arg s = (Inl (ErrNotFound tid), s1)
       \<and> deleteCmd arg s = (Inl (ErrNotFound tid), s1)
       \<and> file_bytes s1 = file_bytes s"
proof -
  have "\<forall>x \<in> set tasks. ID x \<noteq> tid" using assms(4) by auto
  then have c: "complete_loop tid tasks = (False, tasks)" by (rule complete_loop_absent)
  have d: "delete_loop tid False [] tasks = (False, filter (\<lambda>x. ID x \<noteq> tid) tasks)"
    using assms(4) by (simp add: delete_loop_filter)
  have b: "file_bytes s1 = file_bytes s" using loadTasks_state [OF assms(2)] by simp
  show ?thesis
    using b assms(3) by (simp add: completeCmd_def deleteCmd_def assms(1,2) c d)
qed


section \<open>Malformed files\<close>










section \<open>Defects\<close>

text \<open>
  C5. On an existing store that holds no task, \<open>deleteCmd\<close> with an ID that no task has
  (here 99) does not return the not-found error: \<open>make([]Task, 0, len(tasks)-1)\<close> is
  given the capacity -1 and panics. \<open>completeCmd\<close> on the same store returns the
  not-found error. Both leave the file as it is.
\<close>

theorem delete_on_empty_store_panics:
  "deleteCmd ''99'' (ex_store []) = (Inl PanicMakesliceCap, ex_store [])
   \<and> completeCmd ''99'' (ex_store []) = (Inl (ErrNotFound 99), ex_store [])"
proof -
  have a: "Atoi ''99'' = (99, None)" by code_simp
  have l: "loadTasks (ex_store []) = (Inr [], ex_store [])"
    using loadTasks_empty [of "ex_store []"] by (simp add: ex_store_simps fs_content_same)
  show ?thesis
    by (simp add: deleteCmd_def completeCmd_def a l)
qed

text \<open>
  C1. \<open>saveTasks\<close> does not truncate the file. The store below holds two tasks; saving the
  list of the first task alone writes fewer bytes than the file holds, the second record
  stays in the file, and \<open>loadTasks\<close> returns both tasks.
\<close>

theorem save_then_load_keeps_old_tail:
  "saveTasks [ex_task 1 ''a'' False] (ex_store (csv_output [ex_task 1 ''a'' False, ex_task 2 ''b'' False]))
     = (None, ex_store (csv_output [ex_task 1 ''a'' False, ex_task 2 ''b'' False]))
   \<and> fst (loadTasks (snd (saveTasks [ex_task 1 ''a'' False]
         (ex_store (csv_output [ex_task 1 ''a'' False, ex_task 2 ''b'' False])))))
     = Inr [ex_task 1 ''a'' False, ex_task 2 ''b'' False]"
proof -
  let ?t1 = "ex_task 1 ''a'' False" and ?t2 = "ex_task 2 ''b'' False"
  let ?s = "ex_store (csv_output [?t1, ?t2])"
  have o: "csv_output [?t1, ?t2] = csv_output [?t1] @ write_tasks [?t2]"
    using csv_output_append [of "[?t1]" "[?t2]"] by simp
  have w: "write_at_start (csv_output [?t1]) (csv_output [?t1, ?t2]) = csv_output [?t1, ?t2]"
    unfolding o by (simp add: write_at_start_def)
  have sv: "saveTasks [?t1] ?s = (None, ?s)"
    by (simp add: saveTasks_ok ex_store_simps w fs_content_same)
  have v: "\<forall>task \<in> set [?t1, ?t2]. valid_task task"
    by (simp add: ex_task_valid minInt_def maxInt_def)
  have "loadTasks ?s = (Inr (map stored [?t1, ?t2]), ?s)"
    using v by (intro loadTasks_saved) (simp_all add: ex_store_simps)
  then show ?thesis by (simp add: sv ex_task_stored)
qed



lemma deleteCmd_after_load:
  assumes "Atoi arg = (tid, None)" "loadTasks s = (Inr tasks, s1)" "tid \<in> ID ` set tasks"
  shows "deleteCmd arg s =
     (Inr (''Deleted task '' @ Itoa tid @ [NL]),
      s1\<lparr>content := Some (write_at_start
        (csv_output (filter (\<lambda>x. ID x \<noteq> tid) tasks)) (file_bytes s))\<rparr>)"
proof -
  have ne: "tasks \<noteq> []" using assms(3) by auto
  have d: "delete_loop tid False [] tasks = (True, filter (\<lambda>x. ID x \<noteq> tid) tasks)"
    using assms(3) by (simp add: delete_loop_filter)
  show ?thesis
    by (simp add: deleteCmd_def assms(1,2) ne d saveTasks_after_load [OF assms(2)])
qed

text \<open>The line of an example task whose ID and description need no quotes.\<close>

lemma FormatBool_unquoted: "writeField (FormatBool c) = FormatBool c"
  by (cases c) (simp_all add: FormatBool_def writeField_def fieldNeedsQuotes_def first_rune_is_space_def)

lemma ex_task_line:
  assumes "\<not> fieldNeedsQuotes (Itoa i)" "\<not> fieldNeedsQuotes d"
  shows "csv_Write (encode_record (ex_task i d c)) =
     Itoa i @ COMMA # d @ COMMA # writeField (time_Format ex_time) @ COMMA # FormatBool c @ [NL]"
  using assms
  by (simp add: csv_Write_def encode_record_def ex_task_def writeField_def [of "Itoa i"]
      writeField_def [of d] FormatBool_unquoted)

lemma ex_lines:
  "csv_Write (encode_record (ex_task 1 ''a'' False)) =
     ''1'' @ COMMA # ''a'' @ COMMA # writeField (time_Format ex_time) @ COMMA # FormatBool False @ [NL]"
  "csv_Write (encode_record (ex_task 2 ''b'' False)) =
     ''2'' @ COMMA # ''b'' @ COMMA # writeField (time_Format ex_time) @ COMMA # FormatBool False @ [NL]"
  "csv_Write (encode_record (ex_task 2 ''bb'' False)) =
     ''2'' @ COMMA # ''bb'' @ COMMA # writeField (time_Format ex_time) @ COMMA # FormatBool False @ [NL]"
  "csv_Write (encode_record (ex_task 0 ''bb'' False)) =
     ''0'' @ COMMA # ''bb'' @ COMMA # writeField (time_Format ex_time) @ COMMA # FormatBool False @ [NL]"
  using ex_task_line [of 1 "''a''" False] ex_task_line [of 2 "''b''" False]
    ex_task_line [of 2 "''bb''" False] ex_task_line [of 0 "''bb''" False]
  by (simp_all add: ex_Itoa ex_unquoted)

lemma ex_added:
  "added_tasks 1 [(d1, ex_time), (d2, ex_time)] = [ex_task 1 d1 False, ex_task 2 d2 False]"
  by (simp add: ex_task_def)

lemma ex_two_adds:
  assumes "no_crlf d1" "no_crlf d2"
  shows "run_all [Add d1 ex_time, Add d2 ex_time] ex_new
     = ex_store (csv_output [ex_task 1 d1 False, ex_task 2 d2 False])"
proof -
  have e: "add_commands [(d1, ex_time), (d2, ex_time)] = [Add d1 ex_time, Add d2 ex_time]"
    by (simp add: add_commands_def)
  have n: "ex_new\<lparr>content := Some (csv_output [ex_task 1 d1 False, ex_task 2 d2 False])\<rparr>
      = ex_store (csv_output [ex_task 1 d1 False, ex_task 2 d2 False])"
    by (simp add: ex_new_def ex_store_def)
  have "run_all (add_commands [(d1, ex_time), (d2, ex_time)]) ex_new
      = ex_new\<lparr>content := Some (csv_output (added_tasks 1 [(d1, ex_time), (d2, ex_time)]))\<rparr>"
    using assms by (intro run_all_adds_empty) (simp_all add: ex_new_simps ex_time_representable maxInt_def)
  then show ?thesis
    unfolding e ex_added n .
qed


lemma run_all_append: "run_all (cs @ ds) s = run_all ds (run_all cs s)"
  by (induction cs arbitrary: s) simp_all

lemma csv_output_line: "csv_output (t # ts) = (csv_Write header @ csv_Write (encode_record t)) @ write_tasks ts"
  by (simp add: csv_output_def)

text \<open>
  C7. From the empty store: add \<open>a\<close>, add \<open>b\<close>, delete 1, add \<open>c\<close>. The delete saves
  the list of task 2 alone over a file that is one record longer; the records are equally
  long, so the old second record stays behind the new first one and the file holds task
  2 twice. The last add loads both and saves a list with the IDs 2, 2 and 3.
\<close>

theorem saved_ids_not_distinct:
  "run_all [Add ''a'' ex_time, Add ''b'' ex_time, Delete ''1''] ex_new
     = ex_store (csv_output [ex_task 2 ''b'' False, ex_task 2 ''b'' False])
   \<and> fst (loadTasks (ex_store (csv_output [ex_task 2 ''b'' False, ex_task 2 ''b'' False])))
     = Inr [ex_task 2 ''b'' False, ex_task 2 ''b'' False]
   \<and> run (Add ''c'' ex_time) (ex_store (csv_output [ex_task 2 ''b'' False, ex_task 2 ''b'' False]))
     = (Inr (''Added tasks 3: c'' @ [NL]),
        ex_store (csv_output [ex_task 2 ''b'' False, ex_task 2 ''b'' False, ex_task 3 ''c'' False]))
   \<and> \<not> distinct (map ID [ex_task 2 ''b'' False, ex_task 2 ''b'' False, ex_task 3 ''c'' False])"
proof -
  let ?t1 = "ex_task 1 ''a'' False" and ?t2 = "ex_task 2 ''b'' False" and ?t3 = "ex_task 3 ''c'' False"
  let ?s2 = "ex_store (csv_output [?t1, ?t2])"
  let ?s3 = "ex_store (csv_output [?t2, ?t2])"
  have two: "run_all [Add ''a'' ex_time, Add ''b'' ex_time] ex_new = ?s2"
    by (rule ex_two_adds) simp_all
  have v2: "\<forall>task \<in> set [?t1, ?t2]. valid_task task"
    by (simp add: ex_task_valid minInt_def maxInt_def)
  have l2: "loadTasks ?s2 = (Inr [?t1, ?t2], ?s2)"
    using loadTasks_saved [OF _ _ _ v2, of ?s2] by (simp add: ex_store_simps ex_task_stored)
  have in2: "1 \<in> ID ` set [?t1, ?t2]" by (simp add: ex_task_def)
  have f2: "filter (\<lambda>x. ID x \<noteq> 1) [?t1, ?t2] = [?t2]" by (simp add: ex_task_def)
  have len: "length (csv_Write header @ csv_Write (encode_record ?t2))
      = length (csv_Write header @ csv_Write (encode_record ?t1))"
    by (simp add: ex_lines)
  have w: "write_at_start (csv_output [?t2]) (csv_output [?t1, ?t2]) = csv_output [?t2, ?t2]"
    unfolding csv_output_line [of ?t1] csv_output_line [of ?t2 "[]"] csv_output_line [of ?t2 "[?t2]"]
    using write_at_start_same_length [OF len, of "write_tasks [?t2]"] by simp
  have upd: "\<And>x y. (ex_store x)\<lparr>content := Some y\<rparr> = ex_store y"
    by (simp add: ex_store_def)
  have d: "deleteCmd ''1'' ?s2 = (Inr (''Deleted task '' @ Itoa 1 @ [NL]), ?s3)"
    using deleteCmd_after_load [OF ex_atoi(1) l2 in2]
    unfolding f2 ex_store_simps(4) w upd .
  have r3: "run_all [Add ''a'' ex_time, Add ''b'' ex_time, Delete ''1''] ex_new = ?s3"
    using run_all_append [of "[Add ''a'' ex_time, Add ''b'' ex_time]" "[Delete ''1'']" ex_new]
    by (simp only: append_Cons append_Nil two) (simp add: d)
  have v3: "\<forall>task \<in> set [?t2, ?t2]. valid_task task"
    by (simp add: ex_task_valid minInt_def maxInt_def)
  have l3: "loadTasks ?s3 = (Inr [?t2, ?t2], ?s3)"
    using loadTasks_saved [OF _ _ _ v3, of ?s3] by (simp add: ex_store_simps ex_task_stored)
  have g: "getNextID [?t2, ?t2] = 3"
    by (simp add: getNextID_def ex_task_def wrap64_def)
  have t3: "\<lparr>ID = 3, Description = ''c'', CreatedAt = ex_time, IsCompleted = False\<rparr> = ?t3"
    by (simp add: ex_task_def)
  have "addCmd ''c'' ex_time ?s3 =
      (Inr (''Added tasks '' @ Itoa (getNextID [?t2, ?t2]) @ '': '' @ ''c'' @ [NL]),
       ?s3\<lparr>content := Some (csv_output ([?t2, ?t2] @
         [\<lparr>ID = getNextID [?t2, ?t2], Description = ''c'', CreatedAt = ex_time, IsCompleted = False\<rparr>]))\<rparr>)"
    by (rule addCmd_saved [OF _ _ _ v3]) (simp_all add: ex_store_simps)
  then have a: "addCmd ''c'' ex_time ?s3 =
      (Inr (''Added tasks 3: c'' @ [NL]), ex_store (csv_output [?t2, ?t2, ?t3]))"
    unfolding g t3 upd ex_Itoa by simp
  have nd: "\<not> distinct (map ID [?t2, ?t2, ?t3])" by (simp add: ex_task_def)
  show ?thesis
    using r3 l3 a nd by simp
qed









end
